theory Spec2Isabelle
  imports Complex_Main "HOL-Library.Word" "HOL-Library.Log_Nat"
begin

section \<open>Strings, paths and errors\<close>

text \<open>
  Strings and paths are \<^typ>\<open>string\<close>, one \<^typ>\<open>char\<close> per character: the model
  covers ASCII text. File contents are lists of bytes. The exceptions the program can
  raise are values of \<open>error\<close>; a \<open>SplitError\<close> and an \<open>ArgumentTypeError\<close> carry
  their message.
\<close>

type_synonym path = string
type_synonym byte = "8 word"

datatype error =
    SplitError string
  | ArgumentTypeError string
  | ValueError
  | OverflowError
  | ZeroDivisionError
  | FileNotFoundError
  | FileExistsError
  | IsADirectoryError
  | NotADirectoryError
  | KeyError

definition DEFAULT_CHUNK_SIZE :: int where
  "DEFAULT_CHUNK_SIZE = 4000000000"

definition READ_BUFFER :: int where
  "READ_BUFFER = 8 * 1024 ^ 2"

subsection \<open>The string methods the program calls\<close>

definition is_space :: "char \<Rightarrow> bool" where
  \<comment> \<open>the ASCII characters \<open>str.strip\<close> removes: tab, LF, VT, FF, CR, FS, GS, RS, US, space\<close>
  "is_space c = (of_char c \<in> set [9, 10, 11, 12, 13, 28, 29, 30, 31, 32 :: nat])"

definition strip :: "string \<Rightarrow> string" where
  "strip s = rev (dropWhile is_space (rev (dropWhile is_space s)))"

definition is_cspace :: "char \<Rightarrow> bool" where
  \<comment> \<open>the white space \<open>float\<close> skips around a literal: tab, LF, VT, FF, CR, space\<close>
  "is_cspace c = (of_char c \<in> set [9, 10, 11, 12, 13, 32 :: nat])"

definition float_strip :: "string \<Rightarrow> string" where
  "float_strip s = rev (dropWhile is_cspace (rev (dropWhile is_cspace s)))"

definition lower_char :: "char \<Rightarrow> char" where
  "lower_char c =
     (case map_of (zip ''ABCDEFGHIJKLMNOPQRSTUVWXYZ'' ''abcdefghijklmnopqrstuvwxyz'') c of
        Some d \<Rightarrow> d
      | None \<Rightarrow> c)"

definition lower :: "string \<Rightarrow> string" where
  "lower s = map lower_char s"

definition digit_val :: "char \<Rightarrow> nat option" where
  "digit_val c = map_of (zip ''0123456789'' [0, 1, 2, 3, 4, 5, 6, 7, 8, 9]) c"

definition is_digit :: "char \<Rightarrow> bool" where
  "is_digit c = (digit_val c \<noteq> None)"

definition isdigit :: "string \<Rightarrow> bool" where
  \<comment> \<open>\<open>str.isdigit\<close>: at least one character, all of them digits\<close>
  "isdigit s = (s \<noteq> [] \<and> list_all is_digit s)"

definition digits_val :: "string \<Rightarrow> nat" where
  \<comment> \<open>the value of a string of decimal digits, most significant first\<close>
  "digits_val s = foldl (\<lambda>a c. 10 * a + (case digit_val c of Some d \<Rightarrow> d | None \<Rightarrow> 0)) 0 s"

definition endswith :: "string \<Rightarrow> string \<Rightarrow> bool" where
  "endswith s suffix = (length suffix \<le> length s \<and> drop (length s - length suffix) s = suffix)"

definition startswith :: "string \<Rightarrow> string \<Rightarrow> bool" where
  "startswith s pre = (take (length pre) s = pre)"


subsection \<open>Python's \<open>float\<close> and \<open>int\<close> constructors\<close>

text \<open>
  \<open>float(s)\<close> accepts, between optional white space, an optional sign followed by
  \<open>inf\<close>, \<open>infinity\<close> or \<open>nan\<close> (in any case), or by a decimal literal: digits with an
  optional fraction and an optional exponent, where single underscores may separate
  digits. Anything else raises \<open>ValueError\<close>. A float is a binary64 number, kept as the
  rational it denotes: the value of a literal and the product of two floats are rounded
  to the nearest binary64 number, ties to the even significand, and a result of
  magnitude \<open>2 ^ 1024\<close> or more is an infinity. The sign of a zero is not kept.
\<close>

datatype pyfloat = Finite rat | PosInf | NegInf | NaN

definition round_half_even :: "rat \<Rightarrow> int" where
  "round_half_even r =
     (let f = \<lfloor>r\<rfloor>; d = r - of_int f
      in if d < 1 / 2 then f else if 1 / 2 < d then f + 1 else if even f then f else f + 1)"

definition float_exponent :: "rat \<Rightarrow> int" where
  \<comment> \<open>for \<open>a > 0\<close>, the \<open>e\<close> with \<open>2 ^ e \<le> a < 2 ^ (e + 1)\<close>\<close>
  "float_exponent a =
     (case quotient_of a of
        (n, d) \<Rightarrow> (let k = bitlen n - bitlen d in if 2 powi k \<le> a then k else k - 1))"

definition binary64 :: "rat \<Rightarrow> pyfloat" where
  \<comment> \<open>53 significant bits, exponents from \<open>-1022\<close> (subnormal below) to \<open>1023\<close>\<close>
  "binary64 q =
     (if q = 0 then Finite 0
      else
        (let a = \<bar>q\<bar>;
             e = max (float_exponent a) (- 1022);
             ulp = 2 powi (e - 52);
             r = of_int (round_half_even (a / ulp)) * ulp
         in if 2 powi 1024 \<le> r then (if q < 0 then NegInf else PosInf)
            else Finite (if q < 0 then - r else r)))"

fun digitpart :: "string \<Rightarrow> string \<times> string" where
  "digitpart [] = ([], [])"
| "digitpart [c] = (if is_digit c then ([c], []) else ([], [c]))"
| "digitpart (c # u # cs) =
     (if is_digit c then
        (if u = CHR ''_'' \<and> cs \<noteq> [] \<and> is_digit (hd cs)
         then (case digitpart cs of (ds, r) \<Rightarrow> (c # ds, r))
         else (case digitpart (u # cs) of (ds, r) \<Rightarrow> (c # ds, r)))
      else ([], c # u # cs))"

definition split_sign :: "string \<Rightarrow> bool \<times> string" where
  "split_sign s =
     (case s of
        [] \<Rightarrow> (False, [])
      | c # r \<Rightarrow> if c = CHR ''-'' then (True, r) else if c = CHR ''+'' then (False, r) else (False, s))"

definition exponent :: "string \<Rightarrow> int option" where
  "exponent s =
     (case s of
        [] \<Rightarrow> Some 0
      | c # r \<Rightarrow>
          if c = CHR ''e'' \<or> c = CHR ''E'' then
            (case split_sign r of
               (neg, t) \<Rightarrow>
                 (case digitpart t of
                    (ds, rest) \<Rightarrow>
                      if ds = [] \<or> rest \<noteq> [] then None
                      else Some (if neg then - int (digits_val ds) else int (digits_val ds))))
          else None)"

definition pow10 :: "int \<Rightarrow> rat" where
  "pow10 e = (if 0 \<le> e then 10 ^ nat e else 1 / 10 ^ nat (- e))"

definition py_float :: "string \<Rightarrow> error + pyfloat" where
  "py_float s =
     (case split_sign (float_strip s) of
        (neg, u) \<Rightarrow>
          if lower u = ''inf'' \<or> lower u = ''infinity'' then Inr (if neg then NegInf else PosInf)
          else if lower u = ''nan'' then Inr NaN
          else
            (case digitpart u of
               (ip, r1) \<Rightarrow>
                 (case (if r1 \<noteq> [] \<and> hd r1 = CHR ''.'' then digitpart (tl r1) else ([], r1)) of
                    (fp, r2) \<Rightarrow>
                      if ip = [] \<and> fp = [] then Inl ValueError
                      else
                        (case exponent r2 of
                           None \<Rightarrow> Inl ValueError
                         | Some e \<Rightarrow>
                             Inr (binary64 ((if neg then - 1 else 1) * of_nat (digits_val (ip @ fp))
                                            * pow10 (e - int (length fp))))))))"

definition float_le_zero :: "pyfloat \<Rightarrow> bool" where
  \<comment> \<open>\<open>number <= 0\<close>: every comparison with NaN is false\<close>
  "float_le_zero x = (case x of Finite q \<Rightarrow> q \<le> 0 | PosInf \<Rightarrow> False | NegInf \<Rightarrow> True | NaN \<Rightarrow> False)"

definition float_times_int :: "pyfloat \<Rightarrow> int \<Rightarrow> pyfloat" where
  \<comment> \<open>\<open>number * m\<close> for a multiplier \<open>m > 0\<close> of the suffix table, each of them a
      binary64 number itself\<close>
  "float_times_int x m = (case x of Finite q \<Rightarrow> binary64 (q * of_int m) | _ \<Rightarrow> x)"

definition py_int :: "pyfloat \<Rightarrow> error + int" where
  \<comment> \<open>\<open>int(x)\<close> truncates towards zero; infinities raise OverflowError, NaN ValueError\<close>
  "py_int x =
     (case x of
        Finite q \<Rightarrow> Inr (if 0 \<le> q then \<lfloor>q\<rfloor> else \<lceil>q\<rceil>)
      | PosInf \<Rightarrow> Inl OverflowError
      | NegInf \<Rightarrow> Inl OverflowError
      | NaN \<Rightarrow> Inl ValueError)"

section \<open>parse_size\<close>

definition suffixes :: "(string \<times> int) list" where
  "suffixes =
     [(''kib'', 1024), (''mib'', 1024 ^ 2), (''gib'', 1024 ^ 3), (''tib'', 1024 ^ 4),
      (''kb'', 1000), (''mb'', 1000 ^ 2), (''gb'', 1000 ^ 3), (''tb'', 1000 ^ 4),
      (''k'', 1024), (''m'', 1024 ^ 2), (''g'', 1024 ^ 3), (''t'', 1024 ^ 4)]"

definition sorted_suffixes :: "string list" where
  \<comment> \<open>\<open>sorted(suffixes, key=len, reverse=True)\<close>: longest first, ties in table order\<close>
  "sorted_suffixes = sort_key (\<lambda>s. - int (length s)) (map fst suffixes)"

fun parse_size_loop :: "string \<Rightarrow> string list \<Rightarrow> error + int" where
  "parse_size_loop stripped [] =
     Inl (ArgumentTypeError ''size must be an integer byte count or end with K/M/G/T'')"
| "parse_size_loop stripped (suffix # rest) =
     (if endswith stripped suffix then
        (case py_float (take (length stripped - length suffix) stripped) of
           Inl e \<Rightarrow> Inl e
         | Inr number \<Rightarrow>
             if float_le_zero number then Inl (ArgumentTypeError ''size must be positive'')
             else
               (case map_of suffixes suffix of
                  None \<Rightarrow> Inl KeyError
                | Some m \<Rightarrow> py_int (float_times_int number m)))
      else parse_size_loop stripped rest)"

definition parse_size :: "string \<Rightarrow> error + int" where
  "parse_size v =
     (let stripped = lower (strip v)
      in if isdigit stripped then Inr (int (digits_val stripped))
         else parse_size_loop stripped sorted_suffixes)"

section \<open>Part names\<close>

subsection \<open>\<open>os.path\<close> on POSIX\<close>

definition basename :: "path \<Rightarrow> path" where
  \<comment> \<open>what follows the last slash\<close>
  "basename p = rev (takeWhile (\<lambda>c. c \<noteq> CHR ''/'') (rev p))"

definition dirhead :: "path \<Rightarrow> path" where
  \<comment> \<open>everything up to and including the last slash\<close>
  "dirhead p = rev (dropWhile (\<lambda>c. c \<noteq> CHR ''/'') (rev p))"

definition dirname :: "path \<Rightarrow> path" where
  \<comment> \<open>the head without its trailing slashes, unless it consists of slashes only\<close>
  "dirname p =
     (let h = dirhead p
      in if h \<noteq> [] \<and> h \<noteq> replicate (length h) CHR ''/''
         then rev (dropWhile (\<lambda>c. c = CHR ''/'') (rev h))
         else h)"

definition join :: "path \<Rightarrow> path \<Rightarrow> path" where
  "join a b =
     (if startswith b ''/'' then b
      else if a = [] \<or> endswith a ''/'' then a @ b
      else a @ ''/'' @ b)"

definition splitext_name :: "string \<Rightarrow> string \<times> string" where
  \<comment> \<open>a file name without slashes: the extension starts at the last dot, provided a
      character other than a dot stands before it\<close>
  "splitext_name n =
     (let lead = takeWhile (\<lambda>c. c = CHR ''.'') n;
          body = dropWhile (\<lambda>c. c = CHR ''.'') n;
          e = rev (takeWhile (\<lambda>c. c \<noteq> CHR ''.'') (rev body))
      in if CHR ''.'' \<in> set body
         then (lead @ take (length body - length e - 1) body, CHR ''.'' # e)
         else (n, []))"

definition splitext :: "path \<Rightarrow> path \<times> string" where
  "splitext p = (case splitext_name (basename p) of (s, e) \<Rightarrow> (dirhead p @ s, e))"

subsection \<open>\<open>build_part_name\<close>\<close>

function decimal :: "nat \<Rightarrow> string" where
  "decimal n =
     (if n < 10 then [''0123456789'' ! n]
      else decimal (n div 10) @ [''0123456789'' ! (n mod 10)])"
  by pat_completeness auto
termination
  by (relation "measure id") auto

declare decimal.simps [simp del]

definition format_02d :: "int \<Rightarrow> string" where
  \<comment> \<open>\<open>f"{index:02d}"\<close>: at least two characters, zero-padded after the sign\<close>
  "format_02d i =
     (if i < 0 then CHR ''-'' # decimal (nat (- i))
      else replicate (2 - length (decimal (nat i))) CHR ''0'' @ decimal (nat i))"

definition build_part_name :: "path \<Rightarrow> int \<Rightarrow> path" where
  "build_part_name base_path index =
     (case splitext base_path of
        (stem, ext) \<Rightarrow>
          (let suffix = CHR ''.'' # format_02d index
           in if ext \<noteq> [] then stem @ suffix @ ext else base_path @ suffix))"

section \<open>The file system\<close>

text \<open>
  A file system maps a path to a regular file with its bytes, or to a directory with the
  size the system reports for it. Paths are compared as strings: no links, no
  normalisation, no permissions and no quota, and nothing else changes the file system
  while the program runs.
\<close>

datatype node = File "byte list" | Dir nat

type_synonym filesystem = "path \<rightharpoonup> node"

definition exists :: "filesystem \<Rightarrow> path \<Rightarrow> bool" where
  "exists fs p = (fs p \<noteq> None)"

definition getsize :: "filesystem \<Rightarrow> path \<Rightarrow> error + int" where
  "getsize fs p =
     (case fs p of
        None \<Rightarrow> Inl FileNotFoundError
      | Some (File xs) \<Rightarrow> Inr (int (length xs))
      | Some (Dir n) \<Rightarrow> Inr (int n))"

definition contents :: "filesystem \<Rightarrow> path \<Rightarrow> byte list" where
  "contents fs p = (case fs p of Some (File xs) \<Rightarrow> xs | _ \<Rightarrow> [])"

function ancestors :: "path \<Rightarrow> path list" where
  "ancestors p =
     (if dirname p = [] \<or> length p \<le> length (dirname p) then [p]
      else ancestors (dirname p) @ [p])"
  by pat_completeness auto
termination
  by (relation "measure length") auto

declare ancestors.simps [simp del]

fun mkdirs :: "filesystem \<Rightarrow> path list \<Rightarrow> (error + unit) \<times> filesystem" where
  "mkdirs fs [] = (Inr (), fs)"
| "mkdirs fs (d # ds) =
     (case fs d of
        None \<Rightarrow> mkdirs (fs(d \<mapsto> Dir 0)) ds
      | Some (Dir n) \<Rightarrow> mkdirs fs ds
      | Some (File xs) \<Rightarrow> (Inl (if ds = [] then FileExistsError else NotADirectoryError), fs))"

definition rstrip_sep :: "path \<Rightarrow> path" where
  \<comment> \<open>a path without its trailing slashes, unless it consists of slashes only\<close>
  "rstrip_sep d =
     (let r = rev (dropWhile (\<lambda>c. c = CHR ''/'') (rev d)) in if r = [] then d else r)"

definition makedirs :: "filesystem \<Rightarrow> path \<Rightarrow> (error + unit) \<times> filesystem" where
  \<comment> \<open>\<open>os.makedirs(d, exist_ok=True)\<close>: trailing slashes do not count; the missing
      ancestors are made outermost first, then \<open>d\<close>; a new directory is given the size 0\<close>
  "makedirs fs d =
     (if d = [] then (Inl FileNotFoundError, fs) else mkdirs fs (ancestors (rstrip_sep d)))"

text \<open>
  The source is read through a handle that remembers its path, its position and how many
  reads it has served. A read of at most \<open>n\<close> bytes may return fewer: \<open>reads k\<close> is the
  most the \<open>k\<close>-th read call of the run delivers, and a read returns no byte at the end
  of the file or where \<open>reads k = 0\<close> (a source that shrank while it was read).
\<close>

record reader =
  rpath :: path
  rpos :: nat
  rcalls :: nat

definition open_rb :: "filesystem \<Rightarrow> path \<Rightarrow> error + reader" where
  "open_rb fs p =
     (case fs p of
        None \<Rightarrow> Inl FileNotFoundError
      | Some (Dir n) \<Rightarrow> Inl IsADirectoryError
      | Some (File xs) \<Rightarrow> Inr \<lparr>rpath = p, rpos = 0, rcalls = 0\<rparr>)"

definition open_wb :: "filesystem \<Rightarrow> path \<Rightarrow> error + filesystem" where
  \<comment> \<open>creates the file or truncates it\<close>
  "open_wb fs p =
     (case fs p of
        Some (Dir n) \<Rightarrow> Inl IsADirectoryError
      | _ \<Rightarrow> Inr (fs(p \<mapsto> File [])))"

definition readinto :: "(nat \<Rightarrow> nat) \<Rightarrow> filesystem \<Rightarrow> reader \<Rightarrow> nat \<Rightarrow> byte list \<times> reader" where
  "readinto reads fs source n =
     (let data = take (min (reads (rcalls source)) n) (drop (rpos source) (contents fs (rpath source)))
      in (data, source\<lparr>rpos := rpos source + length data, rcalls := Suc (rcalls source)\<rparr>))"

definition write_bytes :: "filesystem \<Rightarrow> path \<Rightarrow> byte list \<Rightarrow> filesystem" where
  "write_bytes fs p data = fs(p \<mapsto> File (contents fs p @ data))"

definition read_file :: "filesystem \<Rightarrow> path \<Rightarrow> error + byte list" where
  "read_file fs p =
     (case fs p of
        None \<Rightarrow> Inl FileNotFoundError
      | Some (Dir n) \<Rightarrow> Inl IsADirectoryError
      | Some (File xs) \<Rightarrow> Inr xs)"

fun cat :: "filesystem \<Rightarrow> path list \<Rightarrow> error + byte list" where
  \<comment> \<open>the concatenation of the files at the given paths, in the order given\<close>
  "cat fs [] = Inr []"
| "cat fs (p # ps) =
     (case read_file fs p of
        Inl e \<Rightarrow> Inl e
      | Inr xs \<Rightarrow> (case cat fs ps of Inl e \<Rightarrow> Inl e | Inr ys \<Rightarrow> Inr (xs @ ys)))"

section \<open>split_file\<close>

definition total_parts :: "int \<Rightarrow> int \<Rightarrow> error + int" where
  \<comment> \<open>\<open>(file_size + chunk_size - 1) // chunk_size\<close>\<close>
  "total_parts file_size chunk_size =
     (if chunk_size = 0 then Inl ZeroDivisionError
      else Inr ((file_size + chunk_size - 1) div chunk_size))"

definition copy_body ::
  "(nat \<Rightarrow> nat) \<Rightarrow> path \<Rightarrow> int \<Rightarrow> filesystem \<Rightarrow> reader \<Rightarrow> int
     \<Rightarrow> error \<times> filesystem \<times> reader + filesystem \<times> reader \<times> int" where
  \<comment> \<open>one pass through the body of the \<open>while\<close> loop\<close>
  "copy_body reads part_path remaining fs source part_bytes =
     (let to_read = min READ_BUFFER (remaining - part_bytes)
      in case readinto reads fs source (nat to_read) of
           (buf, source') \<Rightarrow>
             if length buf = 0 then Inl (SplitError ''Unexpected end of file'', fs, source')
             else Inr (write_bytes fs part_path buf, source', part_bytes + int (length buf)))"

function copy_loop ::
  "(nat \<Rightarrow> nat) \<Rightarrow> path \<Rightarrow> int \<Rightarrow> filesystem \<Rightarrow> reader \<Rightarrow> int
     \<Rightarrow> (error + int) \<times> filesystem \<times> reader" where
  "copy_loop reads part_path remaining fs source part_bytes =
     (if part_bytes < remaining then
        (case copy_body reads part_path remaining fs source part_bytes of
           Inl (e, fs', source') \<Rightarrow> (Inl e, fs', source')
         | Inr (fs', source', part_bytes') \<Rightarrow>
             copy_loop reads part_path remaining fs' source' part_bytes')
      else (Inr part_bytes, fs, source))"
  by pat_completeness auto
termination
  by (relation "measure (\<lambda>(reads, part_path, remaining, fs, source, part_bytes).
        nat (remaining - part_bytes))")
    (auto simp: copy_body_def Let_def split: prod.splits if_splits)

function copy_trace ::
  "(nat \<Rightarrow> nat) \<Rightarrow> path \<Rightarrow> int \<Rightarrow> filesystem \<Rightarrow> reader \<Rightarrow> int \<Rightarrow> int list" where
  \<comment> \<open>the values \<open>part_bytes\<close> has at the successive tests of the loop condition\<close>
  "copy_trace reads part_path remaining fs source part_bytes =
     part_bytes #
     (if part_bytes < remaining then
        (case copy_body reads part_path remaining fs source part_bytes of
           Inl (e, fs', source') \<Rightarrow> []
         | Inr (fs', source', part_bytes') \<Rightarrow>
             copy_trace reads part_path remaining fs' source' part_bytes')
      else [])"
  by pat_completeness auto
termination
  by (relation "measure (\<lambda>(reads, part_path, remaining, fs, source, part_bytes).
        nat (remaining - part_bytes))")
    (auto simp: copy_body_def Let_def split: prod.splits if_splits)

declare copy_loop.simps [simp del] copy_trace.simps [simp del]

fun split_loop ::
  "(nat \<Rightarrow> nat) \<Rightarrow> path \<Rightarrow> int \<Rightarrow> int \<Rightarrow> bool \<Rightarrow> nat list \<Rightarrow> filesystem \<Rightarrow> reader
     \<Rightarrow> path list \<Rightarrow> (error + path list) \<times> filesystem" where
  "split_loop reads output_base chunk_size file_size overwrite [] fs source parts = (Inr parts, fs)"
| "split_loop reads output_base chunk_size file_size overwrite (index # rest) fs source parts =
     (let part_path = build_part_name output_base (int index)
      in if exists fs part_path \<and> \<not> overwrite then
           (Inl (SplitError (''Refusing to overwrite existing part: '' @ part_path
                   @ ''. Use --overwrite to replace.'')), fs)
         else
           (let remaining = min chunk_size (file_size - int (rpos source))
            in case open_wb fs part_path of
                 Inl e \<Rightarrow> (Inl e, fs)
               | Inr fs1 \<Rightarrow>
                   (case copy_loop reads part_path remaining fs1 source 0 of
                      (Inl e, fs2, source') \<Rightarrow> (Inl e, fs2)
                    | (Inr part_bytes, fs2, source') \<Rightarrow>
                        split_loop reads output_base chunk_size file_size overwrite rest fs2 source'
                          (parts @ [part_path]))))"

definition split_file ::
  "(nat \<Rightarrow> nat) \<Rightarrow> filesystem \<Rightarrow> path \<Rightarrow> path option \<Rightarrow> int \<Rightarrow> bool \<Rightarrow> bool
     \<Rightarrow> (error + path list) \<times> filesystem" where
  "split_file reads fs file_path output_dir chunk_size overwrite dry_run =
     (case getsize fs file_path of
        Inl e \<Rightarrow> (Inl e, fs)
      | Inr file_size \<Rightarrow>
          if file_size \<le> chunk_size then (Inr [], fs)
          else
            (let out = (case output_dir of None \<Rightarrow> dirname file_path | Some d \<Rightarrow> d)
             in case makedirs fs out of
                  (Inl e, fs1) \<Rightarrow> (Inl e, fs1)
                | (Inr u, fs1) \<Rightarrow>
                    (let base_name = basename file_path;
                         output_base = join out base_name
                     in case total_parts file_size chunk_size of
                          Inl e \<Rightarrow> (Inl e, fs1)
                        | Inr n \<Rightarrow>
                            if dry_run then
                              (Inr (map (\<lambda>index. build_part_name output_base (int index))
                                      [0..<nat n]), fs1)
                            else
                              (case open_rb fs1 file_path of
                                 Inl e \<Rightarrow> (Inl e, fs1)
                               | Inr source \<Rightarrow>
                                   split_loop reads output_base chunk_size file_size overwrite
                                     [0..<nat n] fs1 source []))))"

section \<open>Sources that need no split\<close>

text \<open>
  C7: for a source file whose size is at most the chunk size, \<open>split_file\<close> returns the
  empty list of parts, raises no error and leaves the file system, the source file
  included, as it was.
\<close>

theorem split_file_no_split:
  "fs file_path = Some (File xs) \<Longrightarrow> int (length xs) \<le> chunk_size \<Longrightarrow>
   split_file reads fs file_path output_dir chunk_size overwrite dry_run = (Inr [], fs)"
  by (simp add: split_file_def getsize_def)

theorem split_file_no_split_witness:
  "[''/d/game.nsp'' \<mapsto> File [1, 2, 3]] ''/d/game.nsp'' = Some (File [1, 2, 3])
   \<and> int (length [1, 2, 3 :: byte]) \<le> 4
   \<and> split_file (\<lambda>k. 1) [''/d/game.nsp'' \<mapsto> File [1, 2, 3]] ''/d/game.nsp'' None 4 False False
       = (Inr [], [''/d/game.nsp'' \<mapsto> File [1, 2, 3]])"
  using split_file_no_split [of "[''/d/game.nsp'' \<mapsto> File [1, 2, 3]]" "''/d/game.nsp''"
      "[1, 2, 3]" 4 "\<lambda>k. 1" None False False]
  by simp

section \<open>Facts about part names\<close>

subsection \<open>Paths, extensions and decimal indices\<close>

lemma dirhead_basename: "dirhead p @ basename p = p"
proof -
  have "rev (dirhead p @ basename p) = rev p"
    by (simp add: dirhead_def basename_def)
  then show ?thesis using rev_is_rev_conv by blast
qed

lemma basename_no_slash: "CHR ''/'' \<notin> set (basename p)"
  by (auto simp: basename_def dest: set_takeWhileD)

lemma dirhead_ends: "dirhead p = [] \<or> last (dirhead p) = CHR ''/''"
proof (cases "dropWhile (\<lambda>c. c \<noteq> CHR ''/'') (rev p)")
  case Nil
  then show ?thesis by (simp add: dirhead_def)
next
  case (Cons a as)
  then have "a = CHR ''/''" using hd_dropWhile[of "\<lambda>c. c \<noteq> CHR ''/''" "rev p"] by auto
  with Cons show ?thesis by (simp add: dirhead_def)
qed

lemma basename_append:
  assumes "CHR ''/'' \<notin> set b" "d = [] \<or> last d = CHR ''/''"
  shows "basename (d @ b) = b" and "dirhead (d @ b) = d"
proof -
  have tw: "takeWhile (\<lambda>c. c \<noteq> CHR ''/'') (rev b @ rev d) = rev b @ takeWhile (\<lambda>c. c \<noteq> CHR ''/'') (rev d)"
    using assms(1) by (intro takeWhile_append2) auto
  have dw: "dropWhile (\<lambda>c. c \<noteq> CHR ''/'') (rev b @ rev d) = dropWhile (\<lambda>c. c \<noteq> CHR ''/'') (rev d)"
    using assms(1) by (intro dropWhile_append2) auto
  have hd0: "takeWhile (\<lambda>c. c \<noteq> CHR ''/'') (rev d) = [] \<and> dropWhile (\<lambda>c. c \<noteq> CHR ''/'') (rev d) = rev d"
  proof (cases d rule: rev_cases)
    case Nil then show ?thesis by simp
  next
    case (snoc ys y)
    with assms(2) show ?thesis by simp
  qed
  show "basename (d @ b) = b" by (simp add: basename_def tw hd0)
  show "dirhead (d @ b) = d" by (simp add: dirhead_def dw hd0)
qed

lemma splitext_name_append: "fst (splitext_name n) @ snd (splitext_name n) = n"
proof (cases "CHR ''.'' \<in> set (dropWhile (\<lambda>c. c = CHR ''.'') n)")
  case False
  then show ?thesis by (simp add: splitext_name_def Let_def)
next
  case True
  define body where "body = dropWhile (\<lambda>c. c = CHR ''.'') n"
  define e where "e = rev (takeWhile (\<lambda>c. c \<noteq> CHR ''.'') (rev body))"
  define r where "r = dropWhile (\<lambda>c. c \<noteq> CHR ''.'') (rev body)"
  have "CHR ''.'' \<in> set (rev body)" using True by (simp add: body_def)
  then have "r \<noteq> []" by (auto simp: r_def dropWhile_eq_Nil_conv)
  moreover have "hd r = CHR ''.''" using hd_dropWhile[of "\<lambda>c. c \<noteq> CHR ''.''" "rev body"] \<open>r \<noteq> []\<close>
    by (auto simp: r_def)
  ultimately obtain r' where r: "r = CHR ''.'' # r'" by (cases r) auto
  have "rev body = rev e @ r" by (simp add: e_def r_def)
  then have "body = rev r @ e" by (metis rev_append rev_rev_ident)
  then have body: "body = rev r' @ CHR ''.'' # e" using r by simp
  then have "take (length body - length e - 1) body = rev r'" by simp
  moreover have "n = takeWhile (\<lambda>c. c = CHR ''.'') n @ body" by (simp add: body_def)
  moreover have "splitext_name n
      = (takeWhile (\<lambda>c. c = CHR ''.'') n @ take (length body - length e - 1) body, CHR ''.'' # e)"
    unfolding splitext_name_def Let_def body_def e_def using True by simp
  ultimately show ?thesis using body by simp
qed

lemma splitext_append: "fst (splitext p) @ snd (splitext p) = p"
  using splitext_name_append[of "basename p"] dirhead_basename[of p]
  by (simp add: splitext_def split: prod.splits) (metis append.assoc fst_conv snd_conv)

lemma build_part_name_eq:
  "build_part_name base i = fst (splitext base) @ CHR ''.'' # format_02d i @ snd (splitext base)"
proof (cases "snd (splitext base) = []")
  case True
  then have "fst (splitext base) = base" using splitext_append[of base] by simp
  with True show ?thesis by (cases "splitext base") (simp add: build_part_name_def)
next
  case False
  then show ?thesis by (cases "splitext base") (simp add: build_part_name_def)
qed

lemma digit_char_val: "d < 10 \<Longrightarrow> digit_val (''0123456789'' ! d) = Some d"
proof -
  assume "d < 10"
  then have "d \<in> {0,1,2,3,4,5,6,7,8,9}" by auto
  then show ?thesis by (auto simp: digit_val_def)
qed

lemma digits_val_snoc: "digits_val (s @ [c]) = 10 * digits_val s + (case digit_val c of Some d \<Rightarrow> d | None \<Rightarrow> 0)"
  by (simp add: digits_val_def)

lemma digits_val_decimal: "digits_val (decimal n) = n"
proof (induction n rule: decimal.induct)
  case (1 n)
  show ?case
  proof (cases "n < 10")
    case True
    then show ?thesis using digits_val_snoc[of "[]" "''0123456789'' ! n"] digit_char_val[of n]
      by (simp add: decimal.simps[of n] digits_val_def)
  next
    case False
    then have "digits_val (decimal n) = 10 * (n div 10) + n mod 10"
      using 1 digit_char_val[of "n mod 10"]
      by (simp add: decimal.simps[of n] digits_val_snoc)
    then show ?thesis by simp
  qed
qed

lemma digits_val_zeros: "digits_val (replicate k CHR ''0'' @ s) = digits_val s"
proof -
  define f where "f = (\<lambda>(a::nat) c. 10 * a + (case digit_val c of Some d \<Rightarrow> d | None \<Rightarrow> 0))"
  have f0: "f 0 CHR ''0'' = 0" by (simp add: f_def digit_val_def)
  have "foldl f 0 (replicate k CHR ''0'') = 0"
    by (induction k) (simp_all add: f0)
  then show ?thesis by (simp add: digits_val_def f_def)
qed

lemma format_02d_val: "0 \<le> i \<Longrightarrow> digits_val (format_02d i) = nat i"
  by (simp add: format_02d_def digits_val_zeros digits_val_decimal)

lemma format_02d_inj: "0 \<le> i \<Longrightarrow> 0 \<le> j \<Longrightarrow> format_02d i = format_02d j \<Longrightarrow> i = j"
  using format_02d_val[of i] format_02d_val[of j] by simp

lemma length_decimal: "length (decimal n) = (if n < 10 then 1 else Suc (length (decimal (n div 10))))"
  by (subst decimal.simps) simp

lemma decimal_no_slash: "CHR ''/'' \<notin> set (decimal n)"
proof (induction n rule: decimal.induct)
  case (1 n)
  have d: "\<And>d. d < 10 \<Longrightarrow> ''0123456789'' ! d \<noteq> CHR ''/''"
  proof -
    fix d :: nat assume "d < 10"
    then have "d \<in> {0,1,2,3,4,5,6,7,8,9}" by auto
    then show "''0123456789'' ! d \<noteq> CHR ''/''" by auto
  qed
  show ?case
  proof (cases "n < 10")
    case True then show ?thesis using d[of n] by (simp add: decimal.simps[of n])
  next
    case False then show ?thesis using 1 d[of "n mod 10"] by (simp add: decimal.simps[of n])
  qed
qed

lemma format_02d_no_slash: "CHR ''/'' \<notin> set (format_02d i)"
  by (auto simp: format_02d_def decimal_no_slash)

lemma format_02d_two: "0 \<le> i \<Longrightarrow> i < 100 \<Longrightarrow>
  format_02d i = [''0123456789'' ! nat (i div 10), ''0123456789'' ! nat (i mod 10)]"
proof -
  assume a: "0 \<le> i" "i < 100"
  define n where "n = nat i"
  have n: "n < 100" "i = int n" using a by (auto simp: n_def)
  show ?thesis
  proof (cases "n < 10")
    case True
    then show ?thesis using n by (simp add: format_02d_def decimal.simps[of n] numeral_2_eq_2)
  next
    case False
    then have "n div 10 < 10" using n by simp
    then show ?thesis using n False
      by (simp add: format_02d_def decimal.simps[of n] decimal.simps[of "n div 10"] nat_div_distrib nat_mod_distrib zdiv_int[symmetric] zmod_int[symmetric] del: of_nat_div of_nat_mod)
  qed
qed

lemma format_02d_wide: "100 \<le> i \<Longrightarrow> format_02d i = decimal (nat i) \<and> 3 \<le> length (decimal (nat i))"
proof -
  assume a: "100 \<le> i"
  define n where "n = nat i"
  have n: "100 \<le> n" using a by (auto simp: n_def)
  then have "10 \<le> n div 10" by simp
  then have "3 \<le> length (decimal n)" using n
    by (simp add: length_decimal[of n] length_decimal[of "n div 10"] length_decimal[of "n div 10 div 10"])
  then show ?thesis using a by (simp add: format_02d_def n_def)
qed

lemma splitext_name_ext:
  "snd (splitext_name n) = []
   \<or> snd (splitext_name n) = CHR ''.'' # rev (takeWhile (\<lambda>c. c \<noteq> CHR ''.'') (rev (dropWhile (\<lambda>c. c = CHR ''.'') n)))"
  unfolding splitext_name_def Let_def by simp

lemma splitext_snd: "snd (splitext p) = snd (splitext_name (basename p))"
  by (cases "splitext_name (basename p)") (simp add: splitext_def)

lemma splitext_ext_shape:
  "snd (splitext p) = []
   \<or> (hd (snd (splitext p)) = CHR ''.'' \<and> CHR ''.'' \<notin> set (tl (snd (splitext p)))
      \<and> CHR ''/'' \<notin> set (snd (splitext p)))"
proof -
  define body where "body = dropWhile (\<lambda>c. c = CHR ''.'') (basename p)"
  define e where "e = rev (takeWhile (\<lambda>c. c \<noteq> CHR ''.'') (rev body))"
  have "set e \<subseteq> set body"
    using set_takeWhileD[of _ "\<lambda>c. c \<noteq> CHR ''.''" "rev body"] by (auto simp: e_def)
  moreover have "set body \<subseteq> set (basename p)"
    using set_dropWhileD[of _ "\<lambda>c. c = CHR ''.''" "basename p"] by (auto simp: body_def)
  ultimately have "CHR ''/'' \<notin> set e" using basename_no_slash[of p] by blast
  moreover have "CHR ''.'' \<notin> set e"
    using set_takeWhileD[of "CHR ''.''" "\<lambda>c. c \<noteq> CHR ''.''" "rev body"] by (auto simp: e_def)
  moreover have "snd (splitext p) = [] \<or> snd (splitext p) = CHR ''.'' # e"
    using splitext_name_ext[of "basename p"] by (simp add: splitext_snd body_def e_def)
  ultimately show ?thesis by auto
qed

subsection \<open>The name of a part\<close>

text \<open>
  C8, as the program has it. For a part index \<open>index \<ge> 0\<close>, \<open>build_part_name\<close> splits the
  base path into stem and final extension (\<open>os.path.splitext\<close>: the extension is empty,
  or starts at the last dot of the last path component and contains no slash) and
  inserts a dot and the index field between them; with no extension the field is
  appended to the base path. The field is the decimal index padded with zeros to at
  least two digits: exactly two digits for an index below 100, and the three or more
  digits of the index itself from 100 on.
\<close>

theorem build_part_name_index:
  assumes "0 \<le> index"
  shows "fst (splitext base_path) @ snd (splitext base_path) = base_path
    \<and> (snd (splitext base_path) = []
       \<or> (hd (snd (splitext base_path)) = CHR ''.''
          \<and> CHR ''.'' \<notin> set (tl (snd (splitext base_path)))
          \<and> CHR ''/'' \<notin> set (snd (splitext base_path))))
    \<and> build_part_name base_path index
        = fst (splitext base_path) @ ''.'' @ format_02d index @ snd (splitext base_path)
    \<and> (snd (splitext base_path) = []
        \<longrightarrow> build_part_name base_path index = base_path @ ''.'' @ format_02d index)
    \<and> (index < 100
        \<longrightarrow> format_02d index
            = [''0123456789'' ! nat (index div 10), ''0123456789'' ! nat (index mod 10)])
    \<and> (100 \<le> index
        \<longrightarrow> format_02d index = decimal (nat index) \<and> 3 \<le> length (decimal (nat index)))"
proof -
  have 1: "fst (splitext base_path) @ snd (splitext base_path) = base_path"
    by (rule splitext_append)
  have 2: "build_part_name base_path index
        = fst (splitext base_path) @ ''.'' @ format_02d index @ snd (splitext base_path)"
    by (simp add: build_part_name_eq)
  have 3: "snd (splitext base_path) = []
        \<longrightarrow> build_part_name base_path index = base_path @ ''.'' @ format_02d index"
    using 1 2 by auto
  show ?thesis
    using 1 2 3 splitext_ext_shape[of base_path] format_02d_two[OF assms] format_02d_wide[of index]
    by blast
qed

theorem build_part_name_index_witness:
  "(0::int) \<le> 0 \<and> build_part_name ''game.nsp'' 0 = ''game.00.nsp''"
proof -
  have s: "splitext ''game.nsp'' = (''game'', ''.nsp'')" by code_simp
  have h: "(0::int) \<le> 0" by simp
  show ?thesis using build_part_name_index [OF h, of "''game.nsp''"] s by simp
qed

text \<open>
  C8 as the specification states it fails at the index 100: the field inserted into
  \<open>game.nsp\<close> is \<open>100\<close>, three digits, so the name grows by four characters and not by
  the three of a dot and a two-digit index.
\<close>

theorem build_part_name_index_100:
  "build_part_name ''game.nsp'' 100 = ''game.100.nsp''
   \<and> length (build_part_name ''game.nsp'' 100) \<noteq> length ''game.nsp'' + 3"
  by code_simp

section \<open>Chunk-size strings\<close>

subsection \<open>Floats that are integers\<close>

lemma round_half_even_int: "round_half_even (of_int z) = z"
  by (simp add: round_half_even_def)

lemma float_exponent_int:
  assumes "0 < k"
  shows "float_exponent (of_int k) = bitlen k - 1"
proof -
  have b: "1 \<le> bitlen k" using assms by (simp add: bitlen_alt_def)
  have "(2::int) ^ nat (bitlen k - 1) \<le> k" using bitlen_bounds[OF assms] by simp
  then have "rat_of_int (2 ^ nat (bitlen k - 1)) \<le> of_int k" by (simp only: of_int_le_iff)
  then have "(2::rat) powi (bitlen k - 1) \<le> of_int k"
    using b by (simp add: power_int_nonneg_exp)
  moreover have "bitlen 1 = 1" by (simp add: bitlen_alt_def)
  ultimately show ?thesis by (simp add: float_exponent_def Let_def)
qed

lemma binary64_exact:
  assumes "0 < k" "k < 2 ^ 53"
  shows "binary64 (of_int k) = Finite (of_int k)"
proof -
  define e where "e = bitlen k - 1"
  have b: "1 \<le> bitlen k" using assms(1) by (simp add: bitlen_alt_def)
  have "bitlen k \<le> 53" using assms(2) bitlen_le_iff_power[of k 53] by simp
  then have e: "0 \<le> e" "e \<le> 52" using b by (simp_all add: e_def)
  define m where "m = nat (52 - e)"
  have ulp: "(2::rat) powi (e - 52) = 1 / 2 ^ m"
  proof -
    have "e - 52 = - int m" using e by (simp add: m_def)
    then show ?thesis by (simp add: power_int_minus_divide)
  qed
  have q: "rat_of_int k / (1 / 2 ^ m) = of_int (k * 2 ^ m)" by simp
  have r: "of_int (round_half_even (rat_of_int k / (1 / 2 ^ m))) * (1 / 2 ^ m) = rat_of_int k"
    unfolding q round_half_even_int by simp
  have "rat_of_int k < of_int (2 ^ 53)" using assms(2) by (simp only: of_int_less_iff)
  moreover have "rat_of_int (2 ^ 53) \<le> 2 powi 1024" by simp
  ultimately have small: "\<not> (2::rat) powi 1024 \<le> rat_of_int k" by linarith
  have k0: "rat_of_int k \<noteq> 0" "\<not> rat_of_int k < 0" "\<bar>rat_of_int k\<bar> = rat_of_int k"
    using assms(1) by simp_all
  have mx: "max (float_exponent (rat_of_int k)) (- 1022) = e"
    using e float_exponent_int[OF assms(1)] by (simp add: e_def)
  show ?thesis
    unfolding binary64_def Let_def k0(3) mx ulp r using k0(1,2) small by simp
qed

subsection \<open>Strings of digits\<close>

lemma decimal_digits: "list_all is_digit (decimal n)"
proof (induction n rule: decimal.induct)
  case (1 n)
  have d: "\<And>d. d < 10 \<Longrightarrow> is_digit (''0123456789'' ! d)"
  proof -
    fix d :: nat assume "d < 10"
    then have "d \<in> {0,1,2,3,4,5,6,7,8,9}" by auto
    then show "is_digit (''0123456789'' ! d)" by (auto simp: is_digit_def digit_val_def)
  qed
  show ?case
  proof (cases "n < 10")
    case True then show ?thesis using d[of n] by (simp add: decimal.simps[of n])
  next
    case False then show ?thesis using 1 d[of "n mod 10"] by (simp add: decimal.simps[of n])
  qed
qed

lemma decimal_nonempty: "decimal n \<noteq> []"
  by (subst decimal.simps) simp

lemma is_digit_cases:
  "is_digit c \<longleftrightarrow> c \<in> set ''0123456789''"
  by (auto simp: is_digit_def digit_val_def split: if_splits)

lemma digit_table:
  "list_all (\<lambda>c. \<not> is_space c \<and> \<not> is_cspace c \<and> lower_char c = c \<and> c \<noteq> CHR ''_''
      \<and> c \<noteq> CHR ''-'' \<and> c \<noteq> CHR ''+'' \<and> c \<noteq> CHR ''.'' \<and> c \<noteq> CHR ''i'' \<and> c \<noteq> CHR ''n'')
     ''0123456789''"
  by code_simp

lemma digit_facts:
  assumes "is_digit c"
  shows "\<not> is_space c" "\<not> is_cspace c" "lower_char c = c" "c \<noteq> CHR ''_''" "c \<noteq> CHR ''-''"
    "c \<noteq> CHR ''+''" "c \<noteq> CHR ''.''" "c \<noteq> CHR ''i''" "c \<noteq> CHR ''n''"
proof -
  have "c \<in> set ''0123456789''" using assms by (simp only: is_digit_cases)
  with digit_table[unfolded list_all_iff] have
    "\<not> is_space c \<and> \<not> is_cspace c \<and> lower_char c = c \<and> c \<noteq> CHR ''_''
      \<and> c \<noteq> CHR ''-'' \<and> c \<noteq> CHR ''+'' \<and> c \<noteq> CHR ''.'' \<and> c \<noteq> CHR ''i'' \<and> c \<noteq> CHR ''n''"
    by blast
  then show "\<not> is_space c" "\<not> is_cspace c" "lower_char c = c" "c \<noteq> CHR ''_''" "c \<noteq> CHR ''-''"
    "c \<noteq> CHR ''+''" "c \<noteq> CHR ''.''" "c \<noteq> CHR ''i''" "c \<noteq> CHR ''n''"
    by blast+
qed

lemma digitpart_digits: "list_all is_digit s \<Longrightarrow> digitpart s = (s, [])"
proof (induction s rule: digitpart.induct)
  case 1
  then show ?case by simp
next
  case (2 c)
  then show ?case by simp
next
  case (3 c u cs)
  then have c: "is_digit c" and u: "is_digit u" and r: "list_all is_digit (u # cs)" by simp_all
  have "u \<noteq> CHR ''_''" using digit_facts(4)[OF u] .
  then show ?case using c 3(2)[OF c _ r] by simp
qed

lemma strip_both_id:
  assumes "s \<noteq> []" "\<not> P (hd s)" "\<not> P (last s)"
  shows "rev (dropWhile P (rev (dropWhile P s))) = s"
proof -
  have 1: "dropWhile P s = s" using assms(1,2) by (cases s) auto
  obtain ys y where s: "s = ys @ [y]" using assms(1) by (cases s rule: rev_cases) auto
  have "dropWhile P (rev s) = rev s" using assms(3) by (simp add: s)
  then show ?thesis by (simp add: 1)
qed

lemma digits_hd_last:
  assumes "s \<noteq> []" "list_all is_digit s"
  shows "is_digit (hd s)" "is_digit (last s)"
  using assms by (auto simp: list_all_iff)

lemma lower_digits: "list_all is_digit s \<Longrightarrow> lower s = s"
  by (induction s) (simp_all add: lower_def digit_facts(3))

lemma py_float_digits:
  assumes "s \<noteq> []" "list_all is_digit s"
  shows "py_float s = Inr (binary64 (of_nat (digits_val s)))"
proof -
  note hl = digits_hd_last[OF assms]
  have st: "float_strip s = s"
    unfolding float_strip_def
    using strip_both_id[OF assms(1) digit_facts(2)[OF hl(1)] digit_facts(2)[OF hl(2)]] .
  obtain c cs where s: "s = c # cs" using assms(1) by (cases s) auto
  have c: "is_digit c" using hl(1) s by simp
  have sg: "split_sign s = (False, s)"
    using digit_facts(5,6)[OF c] by (simp add: split_sign_def s)
  have lw: "lower s = s" by (rule lower_digits[OF assms(2)])
  have ni: "s \<noteq> ''inf''" "s \<noteq> ''infinity''" "s \<noteq> ''nan''"
    using digit_facts(8,9)[OF c] by (auto simp: s)
  have dp: "digitpart s = (s, [])" by (rule digitpart_digits[OF assms(2)])
  have ex: "exponent [] = Some 0" by (simp add: exponent_def)
  have p: "pow10 0 = 1" by (simp add: pow10_def)
  show ?thesis
    unfolding py_float_def st sg
    using ni assms(1) by (simp add: lw dp ex p)
qed

lemma py_float_decimal: "py_float (decimal n) = Inr (binary64 (of_nat n))"
  using py_float_digits[OF decimal_nonempty decimal_digits, of n]
  by (simp add: digits_val_decimal)

subsection \<open>The suffix table\<close>

lemma endswith_digits:
  assumes "list_all is_digit ds" "\<not> list_ex is_digit t" "t \<noteq> []"
  shows "endswith (ds @ sfx) t = endswith sfx t"
proof (cases "length t \<le> length sfx")
  case True
  then show ?thesis by (simp add: endswith_def)
next
  case False
  have "\<not> endswith (ds @ sfx) t"
  proof
    assume e: "endswith (ds @ sfx) t"
    define k where "k = length ds + length sfx - length t"
    from e have le: "length t \<le> length ds + length sfx" and d: "drop k (ds @ sfx) = t"
      by (simp_all add: endswith_def k_def)
    have k: "k < length ds" using False le by (simp add: k_def)
    then have "t = drop k ds @ sfx" using d by simp
    moreover have "drop k ds \<noteq> []" using k by simp
    ultimately have "hd t = hd (drop k ds)" by simp
    moreover have "hd (drop k ds) \<in> set ds"
      using k by (metis hd_drop_conv_nth nth_mem)
    ultimately have "is_digit (hd t)" using assms(1) by (simp add: list_all_iff)
    then show False using assms(2,3) by (cases t) (auto simp: list_ex_iff)
  qed
  moreover have "\<not> endswith sfx t" using False by (simp add: endswith_def)
  ultimately show ?thesis by simp
qed

lemma parse_size_loop_digits:
  assumes "list_all is_digit ds"
    and "list_all (\<lambda>t. \<not> list_ex is_digit t \<and> t \<noteq> []) L"
    and "find (endswith sfx) L = Some t"
  shows "parse_size_loop (ds @ sfx) L =
    (case py_float (take (length (ds @ sfx) - length t) (ds @ sfx)) of
       Inl e \<Rightarrow> Inl e
     | Inr number \<Rightarrow>
         if float_le_zero number then Inl (ArgumentTypeError ''size must be positive'')
         else
           (case map_of suffixes t of
              None \<Rightarrow> Inl KeyError
            | Some m \<Rightarrow> py_int (float_times_int number m)))"
  using assms(2,3)
proof (induction L)
  case Nil
  then show ?case by simp
next
  case (Cons a L)
  have e: "endswith (ds @ sfx) a = endswith sfx a"
    using Cons.prems(1) by (intro endswith_digits[OF assms(1)]) simp_all
  show ?case
  proof (cases "endswith sfx a")
    case True
    then have ta: "t = a" using Cons.prems(2) by simp
    show ?thesis unfolding ta using True e by simp
  next
    case False
    then have "find (endswith sfx) L = Some t" using Cons.prems(2) by simp
    then show ?thesis using Cons.IH Cons.prems(1) False e by simp
  qed
qed

lemma suffix_table:
  "list_all (\<lambda>(t, m). find (endswith t) sorted_suffixes = Some t \<and> 1 \<le> m \<and> t \<noteq> []
       \<and> \<not> list_ex is_digit t \<and> list_all (\<lambda>c. c \<in> set ''kmgtib'') t) suffixes"
  by code_simp

lemma sorted_suffixes_letters:
  "list_all (\<lambda>t. \<not> list_ex is_digit t \<and> t \<noteq> []) sorted_suffixes"
  by code_simp

lemma space_table:
  "list_all (\<lambda>c. lower_char c \<notin> set ''kmgtib'')
     (map char_of [9, 10, 11, 12, 13, 28, 29, 30, 31, 32 :: nat])"
  by code_simp

lemma lower_letter_not_space:
  assumes "lower_char c \<in> set ''kmgtib''"
  shows "\<not> is_space c"
proof
  assume "is_space c"
  then have "of_char c \<in> set [9, 10, 11, 12, 13, 28, 29, 30, 31, 32 :: nat]"
    by (simp only: is_space_def)
  then have "char_of (of_char c :: nat) \<in> set (map char_of [9, 10, 11, 12, 13, 28, 29, 30, 31, 32 :: nat])"
    by (simp only: set_map image_eqI)
  then have "c \<in> set (map char_of [9, 10, 11, 12, 13, 28, 29, 30, 31, 32 :: nat])"
    by (simp only: char_of_char)
  with space_table[unfolded list_all_iff] have "lower_char c \<notin> set ''kmgtib''" by blast
  with assms show False by simp
qed

lemma parse_size_digits:
  assumes "s \<noteq> []" "list_all is_digit s"
  shows "parse_size s = Inr (int (digits_val s))"
proof -
  note hl = digits_hd_last[OF assms]
  have "strip s = s"
    unfolding strip_def
    using strip_both_id[OF assms(1) digit_facts(1)[OF hl(1)] digit_facts(1)[OF hl(2)]] .
  then show ?thesis
    using assms by (simp add: parse_size_def lower_digits isdigit_def)
qed

lemma parse_size_suffix:
  assumes m: "map_of suffixes (lower u) = Some m"
    and ds: "ds \<noteq> []" "list_all is_digit ds"
    and n: "0 < digits_val ds" and b: "int (digits_val ds) * m < 2 ^ 53"
  shows "parse_size (ds @ u) = Inr (int (digits_val ds) * m)"
proof -
  define sfx where "sfx = lower u"
  define n where "n = digits_val ds"
  have mem: "(sfx, m) \<in> set suffixes" using m by (simp add: sfx_def map_of_SomeD)
  have "\<forall>x\<in>set suffixes. case x of (t, m) \<Rightarrow>
      find (endswith t) sorted_suffixes = Some t \<and> 1 \<le> m \<and> t \<noteq> []
       \<and> \<not> list_ex is_digit t \<and> list_all (\<lambda>c. c \<in> set ''kmgtib'') t"
    using suffix_table by (simp only: list_all_iff)
  from bspec[OF this mem, unfolded prod.case] have inst:
    "find (endswith sfx) sorted_suffixes = Some sfx \<and> 1 \<le> m \<and> sfx \<noteq> []
       \<and> \<not> list_ex is_digit sfx \<and> list_all (\<lambda>c. c \<in> set ''kmgtib'') sfx"
    .
  have t: "find (endswith sfx) sorted_suffixes = Some sfx" "1 \<le> m" "sfx \<noteq> []"
      "\<not> list_ex is_digit sfx" "list_all (\<lambda>c. c \<in> set ''kmgtib'') sfx"
    using inst by blast+
  have une: "u \<noteq> []" using t(3) by (auto simp: sfx_def lower_def)
  have "lower_char (last u) = last sfx" using une by (simp add: sfx_def lower_def last_map)
  moreover have "last sfx \<in> set ''kmgtib''"
    using t(5) last_in_set[OF t(3)] by (simp only: list_all_iff)
  ultimately have ls: "\<not> is_space (last u)" using lower_letter_not_space by simp
  have hd: "\<not> is_space (hd (ds @ u))"
    using digits_hd_last(1)[OF ds] ds(1) by (simp add: digit_facts(1))
  have st: "strip (ds @ u) = ds @ u"
    unfolding strip_def
    by (rule strip_both_id) (use hd ls une ds(1) in simp_all)
  have lw: "lower (ds @ u) = ds @ sfx"
    using lower_digits[OF ds(2)] by (simp add: lower_def sfx_def)
  have nd: "\<not> isdigit (ds @ sfx)"
  proof -
    obtain c where "c \<in> set sfx" using t(3) by (cases sfx) auto
    moreover from this have "\<not> is_digit c" using t(4) by (auto simp: list_ex_iff)
    ultimately show ?thesis by (auto simp: isdigit_def list_all_iff)
  qed
  have tk: "take (length (ds @ sfx) - length sfx) (ds @ sfx) = ds" by simp
  have n0: "0 < n" using assms(4) by (simp add: n_def)
  have b': "int n * m < 2 ^ 53" using b by (simp add: n_def)
  have n53: "int n < 2 ^ 53"
  proof -
    have "int n * 1 \<le> int n * m" using t(2) by (intro mult_left_mono) simp_all
    then show ?thesis using b' by simp
  qed
  have f1: "binary64 (of_nat n) = Finite (of_nat n)"
    using binary64_exact[of "int n"] n0 n53 by simp
  have f2: "binary64 (of_nat n * of_int m) = Finite (of_int (int n * m))"
  proof -
    have "0 < int n * m" using n0 t(2) by (intro mult_pos_pos) simp_all
    from binary64_exact[OF this b'] show ?thesis by simp
  qed
  have pr: "rat_of_nat n * rat_of_int m = rat_of_int (int n * m)" by simp
  have fl: "\<lfloor>rat_of_nat n * rat_of_int m\<rfloor> = int n * m" unfolding pr by (rule floor_of_int)
  have ge: "0 \<le> rat_of_nat n * rat_of_int m" using t(2) by simp
  have loop: "parse_size_loop (ds @ sfx) sorted_suffixes = Inr (int n * m)"
    unfolding parse_size_loop_digits[OF ds(2) sorted_suffixes_letters t(1)] tk
      py_float_digits[OF ds] n_def[symmetric]
    using n0 m f2 fl ge by (simp add: f1 float_le_zero_def float_times_int_def py_int_def sfx_def)
  show ?thesis
    unfolding parse_size_def st lw Let_def n_def[symmetric] using nd loop by simp
qed

lemma parse_size_errors:
  "parse_size ''abc''
     = Inl (ArgumentTypeError ''size must be an integer byte count or end with K/M/G/T'')"
  "parse_size ''512Mi''
     = Inl (ArgumentTypeError ''size must be an integer byte count or end with K/M/G/T'')"
  "parse_size ''0k'' = Inl (ArgumentTypeError ''size must be positive'')"
  "parse_size ''0'' = Inr 0"
  by code_simp+

lemma suffix_multipliers:
  "map (map_of suffixes) [''k'', ''m'', ''g'', ''t'']
     = [Some 1024, Some (1024 ^ 2), Some (1024 ^ 3), Some (1024 ^ 4)]"
  "map (map_of suffixes) [''kib'', ''mib'', ''gib'', ''tib'']
     = [Some 1024, Some (1024 ^ 2), Some (1024 ^ 3), Some (1024 ^ 4)]"
  "map (map_of suffixes) [''kb'', ''mb'', ''gb'', ''tb'']
     = [Some 1000, Some (1000 ^ 2), Some (1000 ^ 3), Some (1000 ^ 4)]"
  "map (map_of suffixes) [''ki'', ''mi'', ''gi'', ''ti''] = [None, None, None, None]"
  by (simp_all add: suffixes_def)

lemma parse_size_instances:
  "parse_size ''2G'' = Inr 2147483648"
  "parse_size ''2GB'' = Inr 2000000000"
  "parse_size ''512MiB'' = Inr 536870912"
  "parse_size ''1024'' = Inr 1024"
proof -
  have l: "lower ''G'' = ''g''" "lower ''GB'' = ''gb''" "lower ''MiB'' = ''mib''" by code_simp+
  have d: "list_all is_digit ''2''" "list_all is_digit ''512''" "list_all is_digit ''1024''"
    "digits_val ''2'' = 2" "digits_val ''512'' = 512" "digits_val ''1024'' = 1024"
    by code_simp+
  have m: "map_of suffixes ''g'' = Some (1024 ^ 3)" "map_of suffixes ''gb'' = Some (1000 ^ 3)"
    "map_of suffixes ''mib'' = Some (1024 ^ 2)"
    by (simp_all add: suffixes_def)
  show "parse_size ''2G'' = Inr 2147483648"
    using parse_size_suffix[of "''G''" "1024 ^ 3" "''2''"] l m d by simp
  show "parse_size ''2GB'' = Inr 2000000000"
    using parse_size_suffix[of "''GB''" "1000 ^ 3" "''2''"] l m d by simp
  show "parse_size ''512MiB'' = Inr 536870912"
    using parse_size_suffix[of "''MiB''" "1024 ^ 2" "''512''"] l m d by simp
  show "parse_size ''1024'' = Inr 1024"
    using parse_size_digits[of "''1024''"] d by simp
qed

subsection \<open>What parse_size accepts\<close>

text \<open>
  C3, as the program has it. A chunk-size string is lower-cased first. A non-empty string
  of decimal digits followed by a suffix of the table is the value of the digits times
  the multiplier of the suffix, for every positive value whose product with the
  multiplier is below \<open>2 ^ 53\<close> (the product is computed in floating point and is exact
  there). The multipliers: \<open>k\<close>, \<open>m\<close>, \<open>g\<close>, \<open>t\<close> and \<open>kib\<close>, \<open>mib\<close>, \<open>gib\<close>, \<open>tib\<close> are
  the powers of 1024, and \<open>kb\<close>, \<open>mb\<close>, \<open>gb\<close>, \<open>tb\<close> are the powers of 1000; \<open>ki\<close>, \<open>mi\<close>,
  \<open>gi\<close> and \<open>ti\<close> are not in the table. A string of digits alone is its value. So \<open>2G\<close> is
  2,147,483,648 and \<open>2GB\<close> is 2,000,000,000, \<open>512MiB\<close> is 536,870,912 and \<open>1024\<close> is
  1024, while \<open>512Mi\<close> and \<open>abc\<close> are rejected with an \<open>ArgumentTypeError\<close>. \<open>parse_size\<close>
  takes no file system: it cannot touch a file.
\<close>

theorem parse_size_rules:
  "(map_of suffixes (lower u) = Some m \<and> ds \<noteq> [] \<and> list_all is_digit ds
      \<and> 0 < digits_val ds \<and> int (digits_val ds) * m < 2 ^ 53
     \<longrightarrow> parse_size (ds @ u) = Inr (int (digits_val ds) * m))
   \<and> (ds \<noteq> [] \<and> list_all is_digit ds \<longrightarrow> parse_size ds = Inr (int (digits_val ds)))
   \<and> map (map_of suffixes) [''k'', ''m'', ''g'', ''t'']
       = [Some 1024, Some (1024 ^ 2), Some (1024 ^ 3), Some (1024 ^ 4)]
   \<and> map (map_of suffixes) [''kib'', ''mib'', ''gib'', ''tib'']
       = [Some 1024, Some (1024 ^ 2), Some (1024 ^ 3), Some (1024 ^ 4)]
   \<and> map (map_of suffixes) [''kb'', ''mb'', ''gb'', ''tb'']
       = [Some 1000, Some (1000 ^ 2), Some (1000 ^ 3), Some (1000 ^ 4)]
   \<and> map (map_of suffixes) [''ki'', ''mi'', ''gi'', ''ti''] = [None, None, None, None]
   \<and> parse_size ''2G'' = Inr 2147483648 \<and> parse_size ''2GB'' = Inr 2000000000
   \<and> parse_size ''512MiB'' = Inr 536870912 \<and> parse_size ''1024'' = Inr 1024
   \<and> parse_size ''512Mi''
       = Inl (ArgumentTypeError ''size must be an integer byte count or end with K/M/G/T'')
   \<and> parse_size ''abc''
       = Inl (ArgumentTypeError ''size must be an integer byte count or end with K/M/G/T'')"
proof -
  have 1: "map_of suffixes (lower u) = Some m \<and> ds \<noteq> [] \<and> list_all is_digit ds
      \<and> 0 < digits_val ds \<and> int (digits_val ds) * m < 2 ^ 53
     \<longrightarrow> parse_size (ds @ u) = Inr (int (digits_val ds) * m)"
  proof (intro impI, elim conjE)
    assume "map_of suffixes (lower u) = Some m" "ds \<noteq> []" "list_all is_digit ds"
      "0 < digits_val ds" "int (digits_val ds) * m < 2 ^ 53"
    then show "parse_size (ds @ u) = Inr (int (digits_val ds) * m)"
      by (rule parse_size_suffix)
  qed
  have 2: "ds \<noteq> [] \<and> list_all is_digit ds \<longrightarrow> parse_size ds = Inr (int (digits_val ds))"
  proof (intro impI, elim conjE)
    assume "ds \<noteq> []" "list_all is_digit ds"
    then show "parse_size ds = Inr (int (digits_val ds))" by (rule parse_size_digits)
  qed
  show ?thesis
    by (intro conjI 1 2 suffix_multipliers parse_size_instances parse_size_errors(1,2))
qed

theorem parse_size_rules_witness: "parse_size ''7kB'' = Inr 7000"
proof -
  have "lower ''kB'' = ''kb''" "list_all is_digit ''7''" "digits_val ''7'' = 7" by code_simp+
  moreover have "map_of suffixes ''kb'' = Some 1000" by (simp add: suffixes_def)
  ultimately show ?thesis using parse_size_rules[of "''kB''" 1000 "''7''"] by simp
qed

text \<open>C3 as the specification states it fails: \<open>2G\<close> is not 2,000,000,000 bytes.\<close>

theorem parse_size_2G_not_decimal: "parse_size ''2G'' \<noteq> Inr 2000000000"
  by (simp add: parse_size_instances)

text \<open>
  C6 at the input \<open>0\<close>: the digit string is returned as the size 0 without the positivity
  check that the suffix branch makes (\<open>0k\<close> is refused there), and the part count
  \<open>(file_size + 0 - 1) // 0\<close> then raises \<open>ZeroDivisionError\<close>.
\<close>

theorem parse_size_zero_accepted:
  "parse_size ''0'' = Inr 0
   \<and> parse_size ''0k'' = Inl (ArgumentTypeError ''size must be positive'')
   \<and> total_parts file_size 0 = Inl ZeroDivisionError"
  by (simp add: total_parts_def parse_size_errors)

section \<open>The copy loop\<close>

lemma copy_body_frame:
  "copy_body reads pp remaining fs src b = Inr (fs', src', b') \<Longrightarrow> p \<noteq> pp \<Longrightarrow> fs' p = fs p"
  by (auto simp: copy_body_def Let_def write_bytes_def split: prod.splits if_splits)

lemma copy_body_error:
  "copy_body reads pp remaining fs src b = Inl (e, fs', src') \<Longrightarrow> fs' = fs"
  by (auto simp: copy_body_def Let_def split: prod.splits if_splits)

lemma copy_loop_frame:
  "p \<noteq> pp \<Longrightarrow> fst (snd (copy_loop reads pp remaining fs src b)) p = fs p"
proof (induction reads pp remaining fs src b rule: copy_loop.induct)
  case (1 reads pp remaining fs src b)
  show ?case
  proof (cases "b < remaining")
    case False
    then show ?thesis by (simp add: copy_loop.simps[of reads pp remaining fs src b])
  next
    case True
    show ?thesis
    proof (cases "copy_body reads pp remaining fs src b")
      case (Inl t)
      obtain e fs' src' where t: "t = (e, fs', src')" by (cases t) auto
      with Inl True copy_body_error[of reads pp remaining fs src b e fs' src'] show ?thesis
        by (simp add: copy_loop.simps[of reads pp remaining fs src b])
    next
      case (Inr t)
      obtain fs' src' b' where t: "t = (fs', src', b')" by (cases t) auto
      have "fst (snd (copy_loop reads pp remaining fs' src' b')) p = fs' p"
        using "1.IH"[OF True Inr[unfolded t] refl refl "1.prems"] .
      with Inr t True copy_body_frame[of reads pp remaining fs src b fs' src' b' p] "1.prems"
      show ?thesis by (simp add: copy_loop.simps[of reads pp remaining fs src b])
    qed
  qed
qed

lemma copy_body_step:
  assumes "fs sp = Some (File xs)" "rpath src = sp" "pp \<noteq> sp" "fs pp = Some (File ys)"
    "b < remaining" "rpos src + nat (remaining - b) \<le> length xs" "0 < reads (rcalls src)"
  defines "r \<equiv> min (reads (rcalls src)) (nat (min READ_BUFFER (remaining - b)))"
  shows "copy_body reads pp remaining fs src b
      = Inr (fs(pp \<mapsto> File (ys @ take r (drop (rpos src) xs))),
             src\<lparr>rpos := rpos src + r, rcalls := Suc (rcalls src)\<rparr>, b + int r)"
    and "0 < r" and "int r \<le> remaining - b"
proof -
  have rb: "0 < READ_BUFFER" by (simp add: READ_BUFFER_def)
  show r0: "0 < r" using assms(5,7) rb by (simp add: r_def)
  show r1: "int r \<le> remaining - b" using assms(5) by (simp add: r_def)
  have "r \<le> nat (remaining - b)" using r1 by linarith
  then have len: "length (take r (drop (rpos src) xs)) = r" using assms(6) by simp
  have data: "fst (readinto reads fs src (nat (min READ_BUFFER (remaining - b)))) = take r (drop (rpos src) xs)"
    using assms(1,2) by (simp add: readinto_def Let_def contents_def r_def)
  have src': "snd (readinto reads fs src (nat (min READ_BUFFER (remaining - b))))
      = src\<lparr>rpos := rpos src + r, rcalls := Suc (rcalls src)\<rparr>"
    using assms(1,2) len by (simp add: readinto_def Let_def contents_def r_def)
  show "copy_body reads pp remaining fs src b
      = Inr (fs(pp \<mapsto> File (ys @ take r (drop (rpos src) xs))),
             src\<lparr>rpos := rpos src + r, rcalls := Suc (rcalls src)\<rparr>, b + int r)"
    using data src' len r0 assms(4)
    by (cases "readinto reads fs src (nat (min READ_BUFFER (remaining - b)))")
       (simp add: copy_body_def Let_def write_bytes_def contents_def)
qed

lemma take_drop_split:
  "r \<le> m \<Longrightarrow> take r (drop p xs) @ take (m - r) (drop (p + r) xs) = take m (drop p xs)"
  using take_add[of r "m - r" "drop p xs"] by (simp add: add.commute)

lemma copy_loop_run:
  "fs sp = Some (File xs) \<Longrightarrow> rpath src = sp \<Longrightarrow> pp \<noteq> sp \<Longrightarrow> fs pp = Some (File ys)
   \<Longrightarrow> 0 \<le> b \<Longrightarrow> b \<le> remaining \<Longrightarrow> rpos src + nat (remaining - b) \<le> length xs
   \<Longrightarrow> \<forall>k. 0 < reads k
   \<Longrightarrow> \<exists>c. copy_loop reads pp remaining fs src b
        = (Inr remaining,
           fs(pp \<mapsto> File (ys @ take (nat (remaining - b)) (drop (rpos src) xs))),
           src\<lparr>rpos := rpos src + nat (remaining - b), rcalls := c\<rparr>)"
proof (induction reads pp remaining fs src b arbitrary: ys rule: copy_loop.induct)
  case (1 reads pp remaining fs src b)
  show ?case
  proof (cases "b < remaining")
    case False
    then have "b = remaining" using "1.prems" by simp
    moreover have "fs(pp \<mapsto> File ys) = fs" using "1.prems"(4) by (simp add: fun_upd_idem)
    moreover have "src\<lparr>rpos := rpos src, rcalls := rcalls src\<rparr> = src" by simp
    ultimately have "copy_loop reads pp remaining fs src b
        = (Inr remaining,
           fs(pp \<mapsto> File (ys @ take (nat (remaining - b)) (drop (rpos src) xs))),
           src\<lparr>rpos := rpos src + nat (remaining - b), rcalls := rcalls src\<rparr>)"
      by (simp add: copy_loop.simps[of reads pp remaining fs src remaining])
    then show ?thesis by (rule exI)
  next
    case True
    define r where "r = min (reads (rcalls src)) (nat (min READ_BUFFER (remaining - b)))"
    define fs' where "fs' = fs(pp \<mapsto> File (ys @ take r (drop (rpos src) xs)))"
    define src' where "src' = src\<lparr>rpos := rpos src + r, rcalls := Suc (rcalls src)\<rparr>"
    have pos: "0 < reads (rcalls src)" using "1.prems"(8) by simp
    note st = copy_body_step[where reads=reads and src=src and fs=fs and pp=pp and b=b
        and remaining=remaining, OF "1.prems"(1,2,3,4) True "1.prems"(7) pos, folded r_def]
    have body: "copy_body reads pp remaining fs src b = Inr (fs', src', b + int r)"
      using st(1) by (simp add: fs'_def src'_def)
    have rle: "r \<le> nat (remaining - b)" using st(3) by linarith
    have "\<exists>c. copy_loop reads pp remaining fs' src' (b + int r)
        = (Inr remaining,
           fs'(pp \<mapsto> File ((ys @ take r (drop (rpos src) xs)) @ take (nat (remaining - (b + int r))) (drop (rpos src') xs))),
           src'\<lparr>rpos := rpos src' + nat (remaining - (b + int r)), rcalls := c\<rparr>)"
    proof (rule "1.IH"[OF True body refl refl])
      show "fs' sp = Some (File xs)" using "1.prems"(1,3) by (simp add: fs'_def)
      show "rpath src' = sp" using "1.prems"(2) by (simp add: src'_def)
      show "pp \<noteq> sp" by fact
      show "fs' pp = Some (File (ys @ take r (drop (rpos src) xs)))" by (simp add: fs'_def)
      show "0 \<le> b + int r" using "1.prems"(5) by simp
      show "b + int r \<le> remaining" using st(3) by simp
      show "rpos src' + nat (remaining - (b + int r)) \<le> length xs"
        using "1.prems"(7) rle by (simp add: src'_def)
      show "\<forall>k. 0 < reads k" by fact
    qed
    then obtain c where c: "copy_loop reads pp remaining fs' src' (b + int r)
        = (Inr remaining,
           fs'(pp \<mapsto> File ((ys @ take r (drop (rpos src) xs)) @ take (nat (remaining - (b + int r))) (drop (rpos src') xs))),
           src'\<lparr>rpos := rpos src' + nat (remaining - (b + int r)), rcalls := c\<rparr>)" by blast
    have n: "nat (remaining - (b + int r)) = nat (remaining - b) - r" by linarith
    have data: "take r (drop (rpos src) xs) @ take (nat (remaining - b) - r) (drop (rpos src + r) xs)
        = take (nat (remaining - b)) (drop (rpos src) xs)"
      using take_drop_split[OF rle] .
    have e1: "fs'(pp \<mapsto> File ((ys @ take r (drop (rpos src) xs)) @ take (nat (remaining - (b + int r))) (drop (rpos src') xs)))
        = fs(pp \<mapsto> File (ys @ take (nat (remaining - b)) (drop (rpos src) xs)))"
      using data by (simp add: fs'_def src'_def n)
    have e2: "src'\<lparr>rpos := rpos src' + nat (remaining - (b + int r)), rcalls := c\<rparr>
        = src\<lparr>rpos := rpos src + nat (remaining - b), rcalls := c\<rparr>"
      using rle by (simp add: src'_def n)
    have "copy_loop reads pp remaining fs src b = copy_loop reads pp remaining fs' src' (b + int r)"
      using True body by (simp add: copy_loop.simps[of reads pp remaining fs src b])
    then show ?thesis using c e1 e2 by auto
  qed
qed

lemma copy_trace_bound:
  "fs sp = Some (File xs) \<Longrightarrow> rpath src = sp \<Longrightarrow> pp \<noteq> sp \<Longrightarrow> fs pp = Some (File ys)
   \<Longrightarrow> 0 \<le> b \<Longrightarrow> b \<le> remaining \<Longrightarrow> rpos src + nat (remaining - b) \<le> length xs
   \<Longrightarrow> \<forall>k. 0 < reads k
   \<Longrightarrow> list_all (\<lambda>v. v \<le> remaining) (copy_trace reads pp remaining fs src b)"
proof (induction reads pp remaining fs src b arbitrary: ys rule: copy_trace.induct)
  case (1 reads pp remaining fs src b)
  show ?case
  proof (cases "b < remaining")
    case False
    then have "copy_trace reads pp remaining fs src b = [b]"
      by (subst copy_trace.simps) simp
    then show ?thesis using "1.prems"(6) by simp
  next
    case True
    define r where "r = min (reads (rcalls src)) (nat (min READ_BUFFER (remaining - b)))"
    define fs' where "fs' = fs(pp \<mapsto> File (ys @ take r (drop (rpos src) xs)))"
    define src' where "src' = src\<lparr>rpos := rpos src + r, rcalls := Suc (rcalls src)\<rparr>"
    have pos: "0 < reads (rcalls src)" using "1.prems"(8) by simp
    note st = copy_body_step[where reads=reads and src=src and fs=fs and pp=pp and b=b
        and remaining=remaining, OF "1.prems"(1,2,3,4) True "1.prems"(7) pos, folded r_def]
    have body: "copy_body reads pp remaining fs src b = Inr (fs', src', b + int r)"
      using st(1) by (simp add: fs'_def src'_def)
    have rle: "r \<le> nat (remaining - b)" using st(3) by linarith
    have "list_all (\<lambda>v. v \<le> remaining) (copy_trace reads pp remaining fs' src' (b + int r))"
    proof (rule "1.IH"[OF True body refl refl])
      show "fs' sp = Some (File xs)" using "1.prems"(1,3) by (simp add: fs'_def)
      show "rpath src' = sp" using "1.prems"(2) by (simp add: src'_def)
      show "pp \<noteq> sp" by fact
      show "fs' pp = Some (File (ys @ take r (drop (rpos src) xs)))" by (simp add: fs'_def)
      show "0 \<le> b + int r" using "1.prems"(5) by simp
      show "b + int r \<le> remaining" using st(3) by simp
      show "rpos src' + nat (remaining - (b + int r)) \<le> length xs"
        using "1.prems"(7) rle by (simp add: src'_def)
      show "\<forall>k. 0 < reads k" by fact
    qed
    moreover have "copy_trace reads pp remaining fs src b
        = b # copy_trace reads pp remaining fs' src' (b + int r)"
      using True body by (simp add: copy_trace.simps[of reads pp remaining fs src b])
    ultimately show ?thesis using "1.prems"(6) by simp
  qed
qed

text \<open>
  C10: the inner copy loop of \<open>split_file\<close>, entered with \<open>part_bytes = 0\<close> on the part
  file just opened, with \<open>remaining = min(chunk_size, file_size - bytes_already_read)\<close>,
  a positive chunk size and a source that still holds its \<open>file_size\<close> bytes. Whatever
  the reads deliver, as long as every read returns at least one byte (it never returns
  more than it was asked for), the loop ends normally with \<open>part_bytes = remaining\<close>,
  the part file holds exactly the next \<open>remaining\<close> bytes of the source, the source
  position has advanced by \<open>remaining\<close>, and \<open>part_bytes\<close> is at most \<open>remaining\<close> at
  every test of the loop condition.
\<close>

theorem copy_loop_exact:
  assumes "fs (rpath source) = Some (File xs)" "part_path \<noteq> rpath source"
    "fs part_path = Some (File [])" "0 < chunk_size" "rpos source \<le> length xs"
    "\<forall>k. 0 < reads k"
    "remaining = min chunk_size (int (length xs) - int (rpos source))"
  shows "\<exists>fs' source'.
      copy_loop reads part_path remaining fs source 0 = (Inr remaining, fs', source')
      \<and> fs' part_path = Some (File (take (nat remaining) (drop (rpos source) xs)))
      \<and> int (length (contents fs' part_path)) = remaining
      \<and> rpos source' = rpos source + nat remaining
      \<and> list_all (\<lambda>v. v \<le> remaining) (copy_trace reads part_path remaining fs source 0)"
proof -
  have r0: "0 \<le> remaining" using assms(4,5,7) by simp
  have fit: "rpos source + nat (remaining - 0) \<le> length xs" using assms(5,7) by simp
  obtain c where c: "copy_loop reads part_path remaining fs source 0
      = (Inr remaining,
         fs(part_path \<mapsto> File ([] @ take (nat (remaining - 0)) (drop (rpos source) xs))),
         source\<lparr>rpos := rpos source + nat (remaining - 0), rcalls := c\<rparr>)"
    using copy_loop_run[OF assms(1) refl assms(2,3) order_refl r0 fit assms(6)] by blast
  have t: "list_all (\<lambda>v. v \<le> remaining) (copy_trace reads part_path remaining fs source 0)"
    using copy_trace_bound[OF assms(1) refl assms(2,3) order_refl r0 fit assms(6)] .
  have len: "int (length (take (nat remaining) (drop (rpos source) xs))) = remaining"
    using fit r0 by simp
  show ?thesis using c t len by (simp add: contents_def)
qed

theorem copy_loop_exact_witness:
  "fst (copy_loop (\<lambda>k. 1) ''/d/game.00.nsp'' 2
         [''/d/game.nsp'' \<mapsto> File [1, 2, 3, 4, 5], ''/d/game.00.nsp'' \<mapsto> File []]
         \<lparr>rpath = ''/d/game.nsp'', rpos = 0, rcalls = 0\<rparr> 0) = Inr 2
   \<and> fst (snd (copy_loop (\<lambda>k. 1) ''/d/game.00.nsp'' 2
         [''/d/game.nsp'' \<mapsto> File [1, 2, 3, 4, 5], ''/d/game.00.nsp'' \<mapsto> File []]
         \<lparr>rpath = ''/d/game.nsp'', rpos = 0, rcalls = 0\<rparr> 0)) ''/d/game.00.nsp''
       = Some (File [1, 2])
   \<and> list_all (\<lambda>v. v \<le> 2) (copy_trace (\<lambda>k. 1) ''/d/game.00.nsp'' 2
         [''/d/game.nsp'' \<mapsto> File [1, 2, 3, 4, 5], ''/d/game.00.nsp'' \<mapsto> File []]
         \<lparr>rpath = ''/d/game.nsp'', rpos = 0, rcalls = 0\<rparr> 0)"
proof -
  define fs :: filesystem
    where "fs = [''/d/game.nsp'' \<mapsto> File [1, 2, 3, 4, 5], ''/d/game.00.nsp'' \<mapsto> File []]"
  define source where "source = \<lparr>rpath = ''/d/game.nsp'', rpos = 0, rcalls = 0\<rparr>"
  have h1: "fs (rpath source) = Some (File [1, 2, 3, 4, 5])" by (simp add: fs_def source_def)
  have h2: "''/d/game.00.nsp'' \<noteq> rpath source" by (simp add: source_def)
  have h3: "fs ''/d/game.00.nsp'' = Some (File [])" by (simp add: fs_def)
  have h4: "(0::int) < 2" by simp
  have h5: "rpos source \<le> length [1, 2, 3, 4, 5 :: byte]" by (simp add: source_def)
  have h6: "\<forall>k. 0 < (\<lambda>k. 1 :: nat) k" by simp
  have h7: "(2::int) = min 2 (int (length [1, 2, 3, 4, 5 :: byte]) - int (rpos source))"
    by (simp add: source_def)
  obtain fs' source' where
    r: "copy_loop (\<lambda>k. 1) ''/d/game.00.nsp'' 2 fs source 0 = (Inr 2, fs', source')"
      "fs' ''/d/game.00.nsp'' = Some (File (take (nat 2) (drop (rpos source) [1, 2, 3, 4, 5])))"
      "list_all (\<lambda>v. v \<le> 2) (copy_trace (\<lambda>k. 1) ''/d/game.00.nsp'' 2 fs source 0)"
    using copy_loop_exact[OF h1 h2 h3 h4 h5 h6 h7] by blast
  have "take (nat 2) (drop (rpos source) [1, 2, 3, 4, 5 :: byte]) = [1, 2]"
    by (simp add: source_def)
  with r have "fst (copy_loop (\<lambda>k. 1) ''/d/game.00.nsp'' 2 fs source 0) = Inr 2
      \<and> fst (snd (copy_loop (\<lambda>k. 1) ''/d/game.00.nsp'' 2 fs source 0)) ''/d/game.00.nsp''
          = Some (File [1, 2])
      \<and> list_all (\<lambda>v. v \<le> 2) (copy_trace (\<lambda>k. 1) ''/d/game.00.nsp'' 2 fs source 0)"
    by simp
  then show ?thesis unfolding fs_def source_def .
qed

section \<open>Directories and the loop over the parts\<close>

lemma mkdirs_frame:
  "mkdirs fs ds = (r, fs') \<Longrightarrow>
   fs' p = fs p \<or> (fs p = None \<and> fs' p = Some (Dir 0) \<and> p \<in> set ds)"
proof (induction ds arbitrary: fs)
  case Nil
  then show ?case by simp
next
  case (Cons d ds)
  show ?case
  proof (cases "fs d")
    case None
    with Cons.prems have "mkdirs (fs(d \<mapsto> Dir 0)) ds = (r, fs')" by simp
    from Cons.IH[OF this] show ?thesis using None by (cases "p = d") auto
  next
    case (Some n)
    show ?thesis
    proof (cases n)
      case (File xs)
      with Some Cons.prems show ?thesis by simp
    next
      case (Dir k)
      with Some Cons.prems have "mkdirs fs ds = (r, fs')" by simp
      from Cons.IH[OF this] show ?thesis by auto
    qed
  qed
qed

lemma ancestors_length: "a \<in> set (ancestors d) \<Longrightarrow> length a \<le> length d"
proof (induction d rule: ancestors.induct)
  case (1 p)
  show ?case
  proof (cases "dirname p = [] \<or> length p \<le> length (dirname p)")
    case True
    with "1.prems" show ?thesis by (simp add: ancestors.simps[of p])
  next
    case False
    with "1.prems" have "a \<in> set (ancestors (dirname p)) \<or> a = p"
      by (auto simp: ancestors.simps[of p])
    then show ?thesis using "1.IH"[OF False] False by auto
  qed
qed

lemma length_rstrip_sep: "length (rstrip_sep d) \<le> length d"
proof -
  have "length (dropWhile (\<lambda>c. c = CHR ''/'') (rev d)) \<le> length (rev d)"
    by (rule length_dropWhile_le)
  then show ?thesis by (simp add: rstrip_sep_def Let_def)
qed

lemma makedirs_frame:
  "makedirs fs d = (r, fs') \<Longrightarrow>
   fs' p = fs p \<or> (fs p = None \<and> fs' p = Some (Dir 0) \<and> length p \<le> length d)"
proof (cases "d = []")
  case True
  assume "makedirs fs d = (r, fs')"
  with True show ?thesis by (simp add: makedirs_def)
next
  case False
  assume "makedirs fs d = (r, fs')"
  with False have "mkdirs fs (ancestors (rstrip_sep d)) = (r, fs')" by (simp add: makedirs_def)
  from mkdirs_frame[OF this, of p] show ?thesis
    using ancestors_length[of p "rstrip_sep d"] length_rstrip_sep[of d] by auto
qed

lemma open_wb_cases:
  "open_wb fs p = Inl e \<Longrightarrow> \<exists>n. fs p = Some (Dir n)"
  "open_wb fs p = Inr fs1 \<Longrightarrow> fs1 = fs(p \<mapsto> File [])"
  by (auto simp: open_wb_def split: option.splits node.splits)

lemma split_loop_parts:
  "split_loop reads base C S ow idxs fs src parts = (Inr ps, fs') \<Longrightarrow>
   ps = parts @ map (\<lambda>i. build_part_name base (int i)) idxs"
proof (induction idxs arbitrary: fs src parts)
  case Nil
  then show ?case by simp
next
  case (Cons i rest)
  define pp where "pp = build_part_name base (int i)"
  have ne: "\<not> (exists fs pp \<and> \<not> ow)"
    using Cons.prems by (auto simp: pp_def Let_def split: if_splits)
  obtain fs1 where o: "open_wb fs pp = Inr fs1"
    using Cons.prems ne by (cases "open_wb fs pp") (auto simp: pp_def Let_def)
  obtain x fs2 src' where cl: "copy_loop reads pp (min C (S - int (rpos src))) fs1 src 0 = (x, fs2, src')"
    by (cases "copy_loop reads pp (min C (S - int (rpos src))) fs1 src 0") auto
  obtain pb where x: "x = Inr pb"
    using Cons.prems ne o cl by (cases x) (auto simp: pp_def[symmetric] Let_def)
  have "split_loop reads base C S ow rest fs2 src' (parts @ [pp]) = (Inr ps, fs')"
    using Cons.prems ne o cl x by (auto simp: pp_def[symmetric] Let_def)
  from Cons.IH[OF this] show ?case by (simp add: pp_def)
qed

lemma split_loop_keeps:
  "\<not> ow \<Longrightarrow> split_loop reads base C S ow idxs fs src parts = (r, fs') \<Longrightarrow> fs p \<noteq> None
   \<Longrightarrow> fs' p = fs p"
proof (induction idxs arbitrary: fs src parts)
  case Nil
  then show ?case by simp
next
  case (Cons i rest)
  define pp where "pp = build_part_name base (int i)"
  show ?case
  proof (cases "exists fs pp")
    case True
    with Cons.prems show ?thesis by (simp add: pp_def[symmetric] Let_def)
  next
    case False
    then have none: "fs pp = None" by (simp add: exists_def)
    then have o: "open_wb fs pp = Inr (fs(pp \<mapsto> File []))" by (simp add: open_wb_def)
    have pne: "p \<noteq> pp" using none Cons.prems(3) by auto
    obtain x fs2 src' where cl:
      "copy_loop reads pp (min C (S - int (rpos src))) (fs(pp \<mapsto> File [])) src 0 = (x, fs2, src')"
      by (cases "copy_loop reads pp (min C (S - int (rpos src))) (fs(pp \<mapsto> File [])) src 0") auto
    have fs2: "fs2 p = fs p"
      using copy_loop_frame[OF pne, of reads "min C (S - int (rpos src))" "fs(pp \<mapsto> File [])" src 0] cl pne
      by simp
    show ?thesis
    proof (cases x)
      case (Inl e)
      with Cons.prems(2) False o cl have "fs' = fs2" by (simp add: pp_def[symmetric] Let_def)
      with fs2 show ?thesis by simp
    next
      case (Inr pb)
      with Cons.prems(2) False o cl
      have "split_loop reads base C S ow rest fs2 src' (parts @ [pp]) = (r, fs')"
        by (simp add: pp_def[symmetric] Let_def)
      from Cons.IH[OF Cons.prems(1) this] fs2 Cons.prems(3) show ?thesis by simp
    qed
  qed
qed

lemma split_loop_conflict:
  "\<not> ow \<Longrightarrow> j \<in> set idxs \<Longrightarrow> fs (build_part_name base (int j)) \<noteq> None
   \<Longrightarrow> \<exists>e. fst (split_loop reads base C S ow idxs fs src parts) = Inl e"
proof (induction idxs arbitrary: fs src parts)
  case Nil
  then show ?case by simp
next
  case (Cons i rest)
  define pp where "pp = build_part_name base (int i)"
  show ?case
  proof (cases "exists fs pp")
    case True
    with Cons.prems(1) show ?thesis by (simp add: pp_def[symmetric] Let_def)
  next
    case False
    then have none: "fs pp = None" by (simp add: exists_def)
    then have o: "open_wb fs pp = Inr (fs(pp \<mapsto> File []))" by (simp add: open_wb_def)
    have jne: "build_part_name base (int j) \<noteq> pp" using none Cons.prems(3) by auto
    then have jrest: "j \<in> set rest" using Cons.prems(2) by (auto simp: pp_def)
    obtain x fs2 src' where cl:
      "copy_loop reads pp (min C (S - int (rpos src))) (fs(pp \<mapsto> File [])) src 0 = (x, fs2, src')"
      by (cases "copy_loop reads pp (min C (S - int (rpos src))) (fs(pp \<mapsto> File [])) src 0") auto
    have fs2: "fs2 (build_part_name base (int j)) \<noteq> None"
      using copy_loop_frame[OF jne, of reads "min C (S - int (rpos src))" "fs(pp \<mapsto> File [])" src 0]
        cl jne Cons.prems(3) by simp
    show ?thesis
    proof (cases x)
      case (Inl e)
      with False o cl show ?thesis by (simp add: pp_def[symmetric] Let_def)
    next
      case (Inr pb)
      with False o cl
      have "split_loop reads base C S ow (i # rest) fs src parts
          = split_loop reads base C S ow rest fs2 src' (parts @ [pp])"
        by (simp add: pp_def[symmetric] Let_def)
      with Cons.IH[where fs=fs2, OF Cons.prems(1) jrest fs2] show ?thesis by simp
    qed
  qed
qed

section \<open>What split_file changes\<close>

lemma split_file_unfold:
  assumes "getsize fs file_path = Inr S" "\<not> S \<le> C"
    "makedirs fs (case output_dir of None \<Rightarrow> dirname file_path | Some d \<Rightarrow> d) = (m, fs1)"
  shows "split_file reads fs file_path output_dir C ow dry =
    (case m of
       Inl e \<Rightarrow> (Inl e, fs1)
     | Inr u \<Rightarrow>
        (case total_parts S C of
           Inl e \<Rightarrow> (Inl e, fs1)
         | Inr n \<Rightarrow>
             if dry then
               (Inr (map (\<lambda>index. build_part_name
                        (join (case output_dir of None \<Rightarrow> dirname file_path | Some d \<Rightarrow> d)
                           (basename file_path)) (int index)) [0..<nat n]), fs1)
             else
               (case open_rb fs1 file_path of
                  Inl e \<Rightarrow> (Inl e, fs1)
                | Inr source \<Rightarrow>
                    split_loop reads
                      (join (case output_dir of None \<Rightarrow> dirname file_path | Some d \<Rightarrow> d)
                         (basename file_path)) C S ow [0..<nat n] fs1 source [])))"
  using assms by (cases m) (simp_all add: split_file_def Let_def)

lemma split_file_real_parts:
  assumes "fst (split_file reads fs file_path output_dir C ow False) = Inr parts"
  shows "fst (split_file reads' fs file_path output_dir C ow' True) = Inr parts"
proof (cases "getsize fs file_path")
  case (Inl e)
  with assms show ?thesis by (simp add: split_file_def)
next
  case (Inr S)
  show ?thesis
  proof (cases "S \<le> C")
    case True
    with Inr assms show ?thesis by (simp add: split_file_def)
  next
    case False
    define out where "out = (case output_dir of None \<Rightarrow> dirname file_path | Some d \<Rightarrow> d)"
    obtain m fs1 where mk: "makedirs fs out = (m, fs1)" by (cases "makedirs fs out") auto
    note u = split_file_unfold[OF Inr False mk[unfolded out_def], folded out_def]
    from assms obtain v where m: "m = Inr v" by (cases m) (auto simp: u)
    from assms m obtain n where n: "total_parts S C = Inr n"
      by (cases "total_parts S C") (auto simp: u)
    from assms m n obtain source where src: "open_rb fs1 file_path = Inr source"
      by (cases "open_rb fs1 file_path") (auto simp: u)
    obtain r f where sl:
      "split_loop reads (join out (basename file_path)) C S ow [0..<nat n] fs1 source [] = (r, f)"
      by (cases "split_loop reads (join out (basename file_path)) C S ow [0..<nat n] fs1 source []") auto
    with assms m n src have "r = Inr parts" by (simp add: u)
    with sl split_loop_parts[of reads "join out (basename file_path)" C S ow "[0..<nat n]" fs1 source "[]" parts f]
    have "parts = map (\<lambda>i. build_part_name (join out (basename file_path)) (int i)) [0..<nat n]"
      by simp
    then show ?thesis using m n by (simp add: u)
  qed
qed

lemma split_file_keeps:
  assumes "fs p \<noteq> None"
  shows "snd (split_file reads fs file_path output_dir C False False) p = fs p"
proof (cases "getsize fs file_path")
  case (Inl e)
  then show ?thesis by (simp add: split_file_def)
next
  case (Inr S)
  show ?thesis
  proof (cases "S \<le> C")
    case True
    with Inr show ?thesis by (simp add: split_file_def)
  next
    case False
    define out where "out = (case output_dir of None \<Rightarrow> dirname file_path | Some d \<Rightarrow> d)"
    obtain m fs1 where mk: "makedirs fs out = (m, fs1)" by (cases "makedirs fs out") auto
    note u = split_file_unfold[OF Inr False mk[unfolded out_def], folded out_def]
    have fs1: "fs1 p = fs p" using makedirs_frame[OF mk, of p] assms by auto
    show ?thesis
    proof (cases m)
      case (Inl e)
      then show ?thesis using fs1 by (simp add: u)
    next
      case m: (Inr v)
      show ?thesis
      proof (cases "total_parts S C")
        case (Inl e)
        then show ?thesis using fs1 m by (simp add: u)
      next
        case n: (Inr n)
        show ?thesis
        proof (cases "open_rb fs1 file_path")
          case (Inl e)
          then show ?thesis using fs1 m n by (simp add: u)
        next
          case (Inr source)
          obtain r f where sl:
            "split_loop reads (join out (basename file_path)) C S False [0..<nat n] fs1 source [] = (r, f)"
            by (cases "split_loop reads (join out (basename file_path)) C S False [0..<nat n] fs1 source []") auto
          have "f p = fs1 p" using split_loop_keeps[OF _ sl, of p] fs1 assms by simp
          then show ?thesis using fs1 m n Inr sl by (simp add: u)
        qed
      qed
    qed
  qed
qed

lemma split_file_conflict:
  assumes "fs file_path = Some (File xs)" "C < int (length xs)"
    "j < nat ((int (length xs) + C - 1) div C)"
    "fs (build_part_name
          (join (case output_dir of None \<Rightarrow> dirname file_path | Some d \<Rightarrow> d) (basename file_path))
          (int j)) \<noteq> None"
  shows "\<exists>e. fst (split_file reads fs file_path output_dir C False False) = Inl e"
proof -
  define out where "out = (case output_dir of None \<Rightarrow> dirname file_path | Some d \<Rightarrow> d)"
  have gs: "getsize fs file_path = Inr (int (length xs))" using assms(1) by (simp add: getsize_def)
  have nle: "\<not> int (length xs) \<le> C" using assms(2) by simp
  obtain m fs1 where mk: "makedirs fs out = (m, fs1)" by (cases "makedirs fs out") auto
  note u = split_file_unfold[OF gs nle mk[unfolded out_def], folded out_def]
  have c0: "C \<noteq> 0" using assms(3) by auto
  have n: "total_parts (int (length xs)) C = Inr ((int (length xs) + C - 1) div C)"
    using c0 by (simp add: total_parts_def)
  have ex: "fs1 (build_part_name (join out (basename file_path)) (int j)) \<noteq> None"
    using makedirs_frame[OF mk, of "build_part_name (join out (basename file_path)) (int j)"] assms(4)
    by (auto simp: out_def)
  show ?thesis
  proof (cases m)
    case (Inl e)
    then show ?thesis by (simp add: u)
  next
    case m: (Inr v)
    show ?thesis
    proof (cases "open_rb fs1 file_path")
      case (Inl e)
      then show ?thesis using m n by (simp add: u)
    next
      case (Inr source)
      have "j \<in> set [0..<nat ((int (length xs) + C - 1) div C)]" using assms(3) by simp
      then have "\<exists>e. fst (split_loop reads (join out (basename file_path)) C (int (length xs)) False
          [0..<nat ((int (length xs) + C - 1) div C)] fs1 source []) = Inl e"
        using ex by (intro split_loop_conflict[where j=j]) simp_all
      then show ?thesis using m n Inr by (simp add: u)
    qed
  qed
qed

section \<open>Dry runs and existing parts\<close>

text \<open>
  C9: on the same file system, with the same source path, output directory and chunk
  size, whenever a real run of \<open>split_file\<close> succeeds and returns a list of part paths,
  the dry run returns the same list, in the same order.
\<close>

theorem dry_run_same_parts:
  "fst (split_file reads fs file_path output_dir chunk_size overwrite False) = Inr parts \<Longrightarrow>
   fst (split_file reads' fs file_path output_dir chunk_size overwrite' True) = Inr parts"
  by (rule split_file_real_parts)

theorem dry_run_same_parts_witness:
  "fst (split_file (\<lambda>k. 2)
          [''/'' \<mapsto> Dir 0, ''/d'' \<mapsto> Dir 0, ''/d/game.nsp'' \<mapsto> File [1, 2, 3, 4, 5]]
          ''/d/game.nsp'' None 2 False False)
     = Inr [''/d/game.00.nsp'', ''/d/game.01.nsp'', ''/d/game.02.nsp'']
   \<and> fst (split_file (\<lambda>k. 2)
          [''/'' \<mapsto> Dir 0, ''/d'' \<mapsto> Dir 0, ''/d/game.nsp'' \<mapsto> File [1, 2, 3, 4, 5]]
          ''/d/game.nsp'' None 2 False True)
     = Inr [''/d/game.00.nsp'', ''/d/game.01.nsp'', ''/d/game.02.nsp'']"
proof -
  have h: "fst (split_file (\<lambda>k. 2)
          [''/'' \<mapsto> Dir 0, ''/d'' \<mapsto> Dir 0, ''/d/game.nsp'' \<mapsto> File [1, 2, 3, 4, 5]]
          ''/d/game.nsp'' None 2 False False)
     = Inr [''/d/game.00.nsp'', ''/d/game.01.nsp'', ''/d/game.02.nsp'']"
    by code_simp
  show ?thesis using h dry_run_same_parts[OF h] by simp
qed

text \<open>
  C5 at a dry run whose output directory does not exist. \<open>split_file\<close> calls
  \<open>os.makedirs\<close> before it tests \<open>dry_run\<close>: the dry run returns the two intended part
  paths and writes no part, and it has created the directory \<open>/out\<close>.
\<close>

theorem dry_run_creates_output_dir:
  "fst (split_file (\<lambda>k. 2)
          [''/'' \<mapsto> Dir 0, ''/d'' \<mapsto> Dir 0, ''/d/game.nsp'' \<mapsto> File [1, 2, 3]]
          ''/d/game.nsp'' (Some ''/out'') 2 False True)
     = Inr [''/out/game.00.nsp'', ''/out/game.01.nsp'']
   \<and> [''/'' \<mapsto> Dir 0, ''/d'' \<mapsto> Dir 0, ''/d/game.nsp'' \<mapsto> File [1, 2, 3 :: byte]] ''/out'' = None
   \<and> snd (split_file (\<lambda>k. 2)
          [''/'' \<mapsto> Dir 0, ''/d'' \<mapsto> Dir 0, ''/d/game.nsp'' \<mapsto> File [1, 2, 3]]
          ''/d/game.nsp'' (Some ''/out'') 2 False True) ''/out'' = Some (Dir 0)
   \<and> snd (split_file (\<lambda>k. 2)
          [''/'' \<mapsto> Dir 0, ''/d'' \<mapsto> Dir 0, ''/d/game.nsp'' \<mapsto> File [1, 2, 3]]
          ''/d/game.nsp'' (Some ''/out'') 2 False True) ''/out/game.00.nsp'' = None"
  by code_simp

section \<open>Part paths, chunks and the part count\<close>

lemma splitext_fst: "fst (splitext p) = dirhead p @ fst (splitext_name (basename p))"
  by (cases "splitext_name (basename p)") (simp add: splitext_def)

lemma length_build_part_name:
  "length (build_part_name base i) = length base + 1 + length (format_02d i)"
proof -
  have "length (fst (splitext base)) + length (snd (splitext base)) = length base"
    using splitext_append[of base] by (metis length_append)
  then show ?thesis by (simp add: build_part_name_eq)
qed

lemma build_part_name_inj:
  assumes "build_part_name base (int i) = build_part_name base (int j)"
  shows "i = j"
proof -
  have "format_02d (int i) = format_02d (int j)"
    using assms by (simp add: build_part_name_eq)
  then have "int i = int j" by (intro format_02d_inj) simp_all
  then show ?thesis by simp
qed

lemma endswith_slash: "endswith a ''/'' \<Longrightarrow> a \<noteq> [] \<and> last a = CHR ''/''"
proof -
  assume e: "endswith a ''/''"
  then have ne: "a \<noteq> []" by (auto simp: endswith_def)
  then obtain ys y where a: "a = ys @ [y]" by (cases a rule: rev_cases) auto
  with e show ?thesis by (simp add: endswith_def)
qed

lemma join_basename:
  assumes "CHR ''/'' \<notin> set b"
  shows "\<exists>d. join out b = d @ b \<and> (d = [] \<or> last d = CHR ''/'') \<and> length out \<le> length d"
proof -
  have ns: "\<not> startswith b ''/''"
    using assms by (cases b) (auto simp: startswith_def)
  show ?thesis
  proof (cases "out = [] \<or> endswith out ''/''")
    case True
    then have "join out b = out @ b" using ns by (simp add: join_def)
    moreover have "out = [] \<or> last out = CHR ''/''" using True endswith_slash by blast
    ultimately show ?thesis by blast
  next
    case False
    then have "join out b = (out @ ''/'') @ b" using ns by (simp add: join_def)
    moreover have "last (out @ ''/'') = CHR ''/''" by simp
    moreover have "length out \<le> length (out @ ''/'')" by simp
    ultimately show ?thesis by blast
  qed
qed

lemma set_splitext_name:
  "set (fst (splitext_name n)) \<union> set (snd (splitext_name n)) = set n"
  using splitext_name_append[of n] by (metis set_append)

lemma part_path_facts:
  assumes "base = join out (basename file_path)"
  shows "build_part_name base i \<noteq> file_path"
    and "length out < length (build_part_name base i)"
proof -
  define b where "b = basename file_path"
  have nb: "CHR ''/'' \<notin> set b" by (simp add: b_def basename_no_slash)
  obtain d where d: "base = d @ b" "d = [] \<or> last d = CHR ''/''" "length out \<le> length d"
    using join_basename[OF nb, of out] assms by (auto simp: b_def)
  have bb: "basename base = b" and dh: "dirhead base = d"
    using basename_append[OF nb d(2)] d(1) by simp_all
  define s where "s = fst (splitext_name b)"
  define e where "e = snd (splitext_name b)"
  have se: "s @ e = b" by (simp add: s_def e_def splitext_name_append)
  define y where "y = s @ CHR ''.'' # format_02d i @ e"
  have ny: "CHR ''/'' \<notin> set y"
    using nb set_splitext_name[of b] format_02d_no_slash[of i]
    by (auto simp: y_def s_def e_def)
  have p: "build_part_name base i = d @ y"
    by (simp add: build_part_name_eq splitext_fst splitext_snd bb dh y_def s_def e_def)
  have "basename (build_part_name base i) = y"
    using basename_append(1)[OF ny d(2)] p by simp
  moreover have "length y = length b + 1 + length (format_02d i)"
    using se by (metis y_def length_append length_Cons add.commute add.left_commute add_Suc_right plus_1_eq_Suc add_Suc)
  ultimately have "length (basename (build_part_name base i)) \<noteq> length (basename file_path)"
    by (simp add: b_def)
  then show "build_part_name base i \<noteq> file_path" by auto
  show "length out < length (build_part_name base i)"
    using d(1,3) by (simp add: length_build_part_name)
qed

lemma concat_chunks:
  "concat (map (\<lambda>j. take c (drop (j * c) xs)) [0..<n]) = take (n * c) xs"
proof (induction n)
  case 0
  then show ?case by simp
next
  case (Suc n)
  have "take (n * c) xs @ take c (drop (n * c) xs) = take (n * c + c) xs"
    by (simp add: take_add)
  with Suc show ?case by (simp add: add.commute)
qed

lemma cat_files:
  "list_all (\<lambda>p. fs p = Some (File (f p))) ps \<Longrightarrow> cat fs ps = Inr (concat (map f ps))"
  by (induction ps) (simp_all add: read_file_def)

lemma total_parts_bounds:
  assumes "0 < c" "c < length xs"
  defines "n \<equiv> nat ((int (length xs) + int c - 1) div int c)"
  shows "length xs \<le> n * c" and "(n - 1) * c < length xs" and "0 < n"
proof -
  define S where "S = int (length xs)"
  define C where "C = int c"
  define q where "q = (S + C - 1) div C"
  have C: "0 < C" using assms(1) by (simp add: C_def)
  have "S + C - 1 = C * q + (S + C - 1) mod C" by (simp add: q_def)
  moreover have "0 \<le> (S + C - 1) mod C" "(S + C - 1) mod C < C" using C by simp_all
  ultimately have b: "C * q \<le> S + C - 1" "S + C - 1 < C * q + C" by linarith+
  have "C * 0 < C * q + C" using b(2) C S_def by simp
  then have "C * 0 < C * (q + 1)" by (simp add: algebra_simps)
  then have "0 < q + 1" using C by (simp only: mult_less_cancel_left_pos)
  then have q0: "0 \<le> q" by simp
  have SC: "C < S" using assms(2) by (simp add: S_def C_def)
  have "q \<noteq> 0" using b(2) SC C by auto
  then have q1: "1 \<le> q" using q0 by simp
  have nq: "int n = q" using q0 by (simp add: n_def q_def S_def C_def)
  have "int (length xs) \<le> int (n * c)" using b(2) by (simp add: nq S_def[symmetric] C_def[symmetric] mult.commute)
  then show "length xs \<le> n * c" by linarith
  have "int ((n - 1) * c) = (q - 1) * C" using q1 nq by (simp add: C_def of_nat_diff)
  also have "\<dots> = C * q - C" by (simp add: algebra_simps)
  also have "\<dots> < S" using b(1) by simp
  finally have "int ((n - 1) * c) < int (length xs)" by (simp add: S_def)
  then show "(n - 1) * c < length xs" by (simp only: of_nat_less_iff)
  show "0 < n" using q1 nq by simp
qed

section \<open>A successful split\<close>

lemma chunk_slice:
  assumes "0 < c" "pos = min (i * c) (length xs)"
  defines "remaining \<equiv> min (int c) (int (length xs) - int pos)"
  shows "0 \<le> remaining" and "pos + nat remaining \<le> length xs"
    and "take (nat remaining) (drop pos xs) = take c (drop (i * c) xs)"
    and "pos + nat remaining = min (Suc i * c) (length xs)"
proof -
  show "0 \<le> remaining" using assms(2) by (simp add: remaining_def)
  show "pos + nat remaining \<le> length xs" using assms(2) by (simp add: remaining_def)
  have r: "nat remaining = min c (length xs - pos)" using assms(2) by (simp add: remaining_def)
  show "take (nat remaining) (drop pos xs) = take c (drop (i * c) xs)"
  proof (cases "i * c \<le> length xs")
    case True
    then have "pos = i * c" using assms(2) by simp
    then show ?thesis using r by (simp add: min_def)
  next
    case False
    then have "pos = length xs" using assms(2) by simp
    then show ?thesis using False by simp
  qed
  show "pos + nat remaining = min (Suc i * c) (length xs)"
    using assms(2) r by (simp only: mult_Suc) arith
qed

lemma split_loop_run:
  assumes c: "0 < c" and rd: "\<forall>k. 0 < reads k"
    and inj: "\<And>j j'. build_part_name base (int j) = build_part_name base (int j') \<Longrightarrow> j = j'"
  shows "fs sp = Some (File xs) \<Longrightarrow> rpath src = sp \<Longrightarrow> rpos src = min (i * c) (length xs)
    \<Longrightarrow> (\<And>j. i \<le> j \<Longrightarrow> j < n \<Longrightarrow>
          build_part_name base (int j) \<noteq> sp
          \<and> (ow \<or> fs (build_part_name base (int j)) = None)
          \<and> (\<forall>k. fs (build_part_name base (int j)) \<noteq> Some (Dir k)))
    \<Longrightarrow> \<exists>fs'. split_loop reads base (int c) (int (length xs)) ow [i..<n] fs src parts
            = (Inr (parts @ map (\<lambda>j. build_part_name base (int j)) [i..<n]), fs')
          \<and> (\<forall>j. i \<le> j \<and> j < n
               \<longrightarrow> fs' (build_part_name base (int j)) = Some (File (take c (drop (j * c) xs))))
          \<and> (\<forall>p. (\<forall>j. i \<le> j \<and> j < n \<longrightarrow> p \<noteq> build_part_name base (int j)) \<longrightarrow> fs' p = fs p)"
proof (induction "n - i" arbitrary: i fs src parts)
  case 0
  then have le: "n \<le> i" by simp
  then have e: "[i..<n] = []" by simp
  have "split_loop reads base (int c) (int (length xs)) ow [i..<n] fs src parts
      = (Inr (parts @ map (\<lambda>j. build_part_name base (int j)) [i..<n]), fs)"
    unfolding e by simp
  moreover have "\<forall>j. i \<le> j \<and> j < n
      \<longrightarrow> fs (build_part_name base (int j)) = Some (File (take c (drop (j * c) xs)))"
    using le by auto
  ultimately show ?case by blast
next
  case (Suc m)
  then have lt: "i < n" by simp
  have up: "[i..<n] = i # [Suc i..<n]" using lt by (simp add: upt_conv_Cons)
  define pp where "pp = build_part_name base (int i)"
  define remaining where "remaining = min (int c) (int (length xs) - int (rpos src))"
  note sl = chunk_slice[OF c Suc.prems(3), folded remaining_def]
  have ppf: "pp \<noteq> sp" "ow \<or> fs pp = None" "\<forall>k. fs pp \<noteq> Some (Dir k)"
    using Suc.prems(4)[OF order_refl lt] by (simp_all add: pp_def)
  have cond: "(exists fs pp \<and> \<not> ow) = False" using ppf(2) by (auto simp: exists_def)
  define fs1 where "fs1 = fs(pp \<mapsto> File [])"
  have o: "open_wb fs pp = Inr fs1"
    using ppf(3) by (auto simp: open_wb_def fs1_def split: option.splits node.splits)
  have f1: "fs1 sp = Some (File xs)" using Suc.prems(1) ppf(1) by (simp add: fs1_def)
  have f2: "fs1 pp = Some (File [])" by (simp add: fs1_def)
  have fit: "rpos src + nat (remaining - 0) \<le> length xs" using sl(2) by simp
  obtain k where cl: "copy_loop reads pp remaining fs1 src 0
      = (Inr remaining,
         fs1(pp \<mapsto> File ([] @ take (nat (remaining - 0)) (drop (rpos src) xs))),
         src\<lparr>rpos := rpos src + nat (remaining - 0), rcalls := k\<rparr>)"
    using copy_loop_run[OF f1 Suc.prems(2) ppf(1) f2 order_refl sl(1) fit rd] by blast
  define fs2 where "fs2 = fs(pp \<mapsto> File (take c (drop (i * c) xs)))"
  define src2 where "src2 = src\<lparr>rpos := rpos src + nat remaining, rcalls := k\<rparr>"
  have cl2: "copy_loop reads pp remaining fs1 src 0 = (Inr remaining, fs2, src2)"
    using cl sl(3) by (simp add: fs1_def fs2_def src2_def)
  have step: "split_loop reads base (int c) (int (length xs)) ow [i..<n] fs src parts
      = split_loop reads base (int c) (int (length xs)) ow [Suc i..<n] fs2 src2 (parts @ [pp])"
    using o cl2 by (simp add: up pp_def[symmetric] remaining_def[symmetric] Let_def cond)
  have "\<exists>fs'. split_loop reads base (int c) (int (length xs)) ow [Suc i..<n] fs2 src2 (parts @ [pp])
            = (Inr ((parts @ [pp]) @ map (\<lambda>j. build_part_name base (int j)) [Suc i..<n]), fs')
          \<and> (\<forall>j. Suc i \<le> j \<and> j < n
               \<longrightarrow> fs' (build_part_name base (int j)) = Some (File (take c (drop (j * c) xs))))
          \<and> (\<forall>p. (\<forall>j. Suc i \<le> j \<and> j < n \<longrightarrow> p \<noteq> build_part_name base (int j)) \<longrightarrow> fs' p = fs2 p)"
  proof (rule Suc.hyps(1))
    show "m = n - Suc i" using Suc.hyps(2) by simp
    show "fs2 sp = Some (File xs)" using Suc.prems(1) ppf(1) by (simp add: fs2_def)
    show "rpath src2 = sp" using Suc.prems(2) by (simp add: src2_def)
    show "rpos src2 = min (Suc i * c) (length xs)" using sl(4) by (simp add: src2_def)
    fix j assume j: "Suc i \<le> j" "j < n"
    then have "build_part_name base (int j) \<noteq> pp" using inj[of j i] by (auto simp: pp_def)
    then have "fs2 (build_part_name base (int j)) = fs (build_part_name base (int j))"
      by (simp add: fs2_def)
    moreover have "i \<le> j" using j(1) by simp
    ultimately show "build_part_name base (int j) \<noteq> sp
          \<and> (ow \<or> fs2 (build_part_name base (int j)) = None)
          \<and> (\<forall>k. fs2 (build_part_name base (int j)) \<noteq> Some (Dir k))"
      using Suc.prems(4)[of j] j(2) by simp
  qed
  then obtain fs' where r:
    "split_loop reads base (int c) (int (length xs)) ow [Suc i..<n] fs2 src2 (parts @ [pp])
       = (Inr ((parts @ [pp]) @ map (\<lambda>j. build_part_name base (int j)) [Suc i..<n]), fs')"
    "\<And>j. Suc i \<le> j \<Longrightarrow> j < n
       \<Longrightarrow> fs' (build_part_name base (int j)) = Some (File (take c (drop (j * c) xs)))"
    "\<And>p. (\<And>j. Suc i \<le> j \<Longrightarrow> j < n \<Longrightarrow> p \<noteq> build_part_name base (int j)) \<Longrightarrow> fs' p = fs2 p"
    by blast
  have res: "split_loop reads base (int c) (int (length xs)) ow [i..<n] fs src parts
      = (Inr (parts @ map (\<lambda>j. build_part_name base (int j)) [i..<n]), fs')"
    using step r(1) by (simp add: up pp_def)
  have ppi: "fs' pp = Some (File (take c (drop (i * c) xs)))"
  proof -
    have "fs' pp = fs2 pp"
    proof (rule r(3))
      fix j assume "Suc i \<le> j" "j < n"
      then show "pp \<noteq> build_part_name base (int j)" using inj[of i j] by (auto simp: pp_def)
    qed
    then show ?thesis by (simp add: fs2_def)
  qed
  have files: "\<forall>j. i \<le> j \<and> j < n
      \<longrightarrow> fs' (build_part_name base (int j)) = Some (File (take c (drop (j * c) xs)))"
  proof (intro allI impI)
    fix j assume j: "i \<le> j \<and> j < n"
    show "fs' (build_part_name base (int j)) = Some (File (take c (drop (j * c) xs)))"
    proof (cases "j = i")
      case True
      then show ?thesis using ppi by (simp add: pp_def)
    next
      case False
      then show ?thesis using j r(2)[of j] by simp
    qed
  qed
  have frame: "\<forall>p. (\<forall>j. i \<le> j \<and> j < n \<longrightarrow> p \<noteq> build_part_name base (int j)) \<longrightarrow> fs' p = fs p"
  proof (intro allI impI)
    fix p assume p: "\<forall>j. i \<le> j \<and> j < n \<longrightarrow> p \<noteq> build_part_name base (int j)"
    then have "p \<noteq> pp" using lt by (auto simp: pp_def)
    moreover have "fs' p = fs2 p" using p by (intro r(3)) auto
    ultimately show "fs' p = fs p" by (simp add: fs2_def)
  qed
  show ?case using res files frame by blast
qed

lemma split_file_run:
  assumes f: "fs file_path = Some (File xs)" and c: "0 < c" "c < length xs"
    and out: "out = (case output_dir of None \<Rightarrow> dirname file_path | Some d \<Rightarrow> d)"
    and base: "base = join out (basename file_path)"
    and n: "n = nat ((int (length xs) + int c - 1) div int c)"
    and mk: "fst (makedirs fs out) = Inr ()"
    and free: "list_all (\<lambda>j. case fs (build_part_name base (int j)) of
                  None \<Rightarrow> True | Some (File ys) \<Rightarrow> overwrite | Some (Dir k) \<Rightarrow> False) [0..<n]"
    and rd: "\<forall>k. 0 < reads k"
  shows "\<exists>fs'. split_file reads fs file_path output_dir (int c) overwrite False
            = (Inr (map (\<lambda>j. build_part_name base (int j)) [0..<n]), fs')
          \<and> (\<forall>j. j < n
               \<longrightarrow> fs' (build_part_name base (int j)) = Some (File (take c (drop (j * c) xs))))
          \<and> fs' file_path = Some (File xs)"
proof -
  have gs: "getsize fs file_path = Inr (int (length xs))" using f by (simp add: getsize_def)
  have nle: "\<not> int (length xs) \<le> int c" using c(2) by simp
  obtain fs1 where mk1: "makedirs fs out = (Inr (), fs1)"
    using mk by (cases "makedirs fs out") auto
  note u = split_file_unfold[OF gs nle mk1[unfolded out], folded out base]
  have tp: "total_parts (int (length xs)) (int c) = Inr (int n)"
  proof -
    have "0 \<le> (int (length xs) + int c - 1) div int c"
      using c(1) by (intro pos_imp_zdiv_nonneg_iff[THEN iffD2]) simp_all
    then show ?thesis using c(1) by (simp add: total_parts_def n)
  qed
  have f1: "fs1 file_path = Some (File xs)" using makedirs_frame[OF mk1, of file_path] f by auto
  have orb: "open_rb fs1 file_path = Inr \<lparr>rpath = file_path, rpos = 0, rcalls = 0\<rparr>"
    using f1 by (simp add: open_rb_def)
  have parts: "\<And>j. 0 \<le> j \<Longrightarrow> j < n \<Longrightarrow>
          build_part_name base (int j) \<noteq> file_path
          \<and> (overwrite \<or> fs1 (build_part_name base (int j)) = None)
          \<and> (\<forall>k. fs1 (build_part_name base (int j)) \<noteq> Some (Dir k))"
  proof -
    fix j :: nat assume j: "j < n"
    note pf = part_path_facts[OF base, of "int j"]
    have same: "fs1 (build_part_name base (int j)) = fs (build_part_name base (int j))"
      using makedirs_frame[OF mk1, of "build_part_name base (int j)"] pf(2) by auto
    have "case fs (build_part_name base (int j)) of
            None \<Rightarrow> True | Some (File ys) \<Rightarrow> overwrite | Some (Dir k) \<Rightarrow> False"
      using free j by (simp add: list_all_iff)
    then have "(overwrite \<or> fs (build_part_name base (int j)) = None)
        \<and> (\<forall>k. fs (build_part_name base (int j)) \<noteq> Some (Dir k))"
      by (auto split: option.splits node.splits)
    then show "build_part_name base (int j) \<noteq> file_path
          \<and> (overwrite \<or> fs1 (build_part_name base (int j)) = None)
          \<and> (\<forall>k. fs1 (build_part_name base (int j)) \<noteq> Some (Dir k))"
      using pf(1) same by simp
  qed
  have "\<exists>fs'. split_loop reads base (int c) (int (length xs)) overwrite [0..<n] fs1
              \<lparr>rpath = file_path, rpos = 0, rcalls = 0\<rparr> []
            = (Inr ([] @ map (\<lambda>j. build_part_name base (int j)) [0..<n]), fs')
          \<and> (\<forall>j. 0 \<le> j \<and> j < n
               \<longrightarrow> fs' (build_part_name base (int j)) = Some (File (take c (drop (j * c) xs))))
          \<and> (\<forall>p. (\<forall>j. 0 \<le> j \<and> j < n \<longrightarrow> p \<noteq> build_part_name base (int j)) \<longrightarrow> fs' p = fs1 p)"
    by (rule split_loop_run[OF c(1) rd build_part_name_inj f1 _ _ parts]) simp_all
  then obtain fs' where r:
    "split_loop reads base (int c) (int (length xs)) overwrite [0..<n] fs1
        \<lparr>rpath = file_path, rpos = 0, rcalls = 0\<rparr> []
      = (Inr (map (\<lambda>j. build_part_name base (int j)) [0..<n]), fs')"
    "\<forall>j. j < n \<longrightarrow> fs' (build_part_name base (int j)) = Some (File (take c (drop (j * c) xs)))"
    "\<forall>p. (\<forall>j. j < n \<longrightarrow> p \<noteq> build_part_name base (int j)) \<longrightarrow> fs' p = fs1 p"
    by auto
  have "fs' file_path = fs1 file_path" using r(3) parts by (metis le0)
  then have "fs' file_path = Some (File xs)" using f1 by simp
  moreover have "split_file reads fs file_path output_dir (int c) overwrite False
      = (Inr (map (\<lambda>j. build_part_name base (int j)) [0..<n]), fs')"
    using tp orb r(1) by (simp add: u)
  ultimately show ?thesis using r(2) by blast
qed

lemma total_parts_ceiling:
  assumes "0 < C"
  shows "(S + C - 1) div C = \<lceil>real_of_int S / real_of_int C\<rceil>"
proof -
  define q where "q = (S + C - 1) div C"
  have "S + C - 1 = C * q + (S + C - 1) mod C" by (simp add: q_def)
  moreover have "0 \<le> (S + C - 1) mod C" "(S + C - 1) mod C < C" using assms by simp_all
  ultimately have b: "C * q \<le> S + C - 1" "S + C - 1 < C * q + C" by linarith+
  have 1: "S \<le> q * C" using b(2) by (simp add: mult.commute)
  have 2: "(q - 1) * C < S" using b(1) by (simp add: algebra_simps)
  have "real_of_int S \<le> real_of_int (q * C)" using 1 by (simp only: of_int_le_iff)
  then have le: "real_of_int S / real_of_int C \<le> real_of_int q"
    using assms by (simp add: pos_divide_le_eq)
  have "real_of_int ((q - 1) * C) < real_of_int S" using 2 by (simp only: of_int_less_iff)
  then have lt: "real_of_int q - 1 < real_of_int S / real_of_int C"
    using assms by (simp add: pos_less_divide_eq)
  have "\<lceil>real_of_int S / real_of_int C\<rceil> = q" using lt le by (rule ceiling_unique)
  then show ?thesis by (simp add: q_def)
qed

section \<open>Round trip and part sizes\<close>

text \<open>
  C1: a source file of \<open>S\<close> bytes and a chunk size \<open>C\<close> with \<open>0 < C < S\<close>. When the output
  directory exists or can be created, every intended part path is free (or, with
  overwrite, is a regular file) and every read delivers at least one byte, a real run of
  \<open>split_file\<close> succeeds, and the concatenation of the part files it returns, in index
  order, is the source, byte for byte; the source itself is unchanged.
\<close>

theorem split_then_concat:
  assumes "fs file_path = Some (File xs)" "0 < chunk_size" "chunk_size < int (length xs)"
    and "fst (makedirs fs (case output_dir of None \<Rightarrow> dirname file_path | Some d \<Rightarrow> d)) = Inr ()"
    and "list_all
          (\<lambda>j. case fs (build_part_name
                          (join (case output_dir of None \<Rightarrow> dirname file_path | Some d \<Rightarrow> d)
                             (basename file_path)) (int j)) of
                  None \<Rightarrow> True | Some (File ys) \<Rightarrow> overwrite | Some (Dir k) \<Rightarrow> False)
          [0..<nat ((int (length xs) + chunk_size - 1) div chunk_size)]"
    and "\<forall>k. 0 < reads k"
  shows "\<exists>parts fs'.
      split_file reads fs file_path output_dir chunk_size overwrite False = (Inr parts, fs')
      \<and> cat fs' parts = Inr xs \<and> fs' file_path = Some (File xs)"
proof -
  define c where "c = nat chunk_size"
  define out where "out = (case output_dir of None \<Rightarrow> dirname file_path | Some d \<Rightarrow> d)"
  define base where "base = join out (basename file_path)"
  define n where "n = nat ((int (length xs) + int c - 1) div int c)"
  have cs: "chunk_size = int c" using assms(2) by (simp add: c_def)
  have c: "0 < c" "c < length xs" using assms(2,3) by (simp_all add: c_def)
  obtain fs' where r:
    "split_file reads fs file_path output_dir (int c) overwrite False
       = (Inr (map (\<lambda>j. build_part_name base (int j)) [0..<n]), fs')"
    "\<forall>j. j < n \<longrightarrow> fs' (build_part_name base (int j)) = Some (File (take c (drop (j * c) xs)))"
    "fs' file_path = Some (File xs)"
    using split_file_run[OF assms(1) c out_def base_def n_def assms(4)[folded out_def]
        assms(5)[folded out_def base_def, unfolded cs, folded n_def] assms(6)]
    by blast
  define f where "f = (\<lambda>p. contents fs' p)"
  have "list_all (\<lambda>p. fs' p = Some (File (f p))) (map (\<lambda>j. build_part_name base (int j)) [0..<n])"
    using r(2) by (simp add: list_all_iff f_def contents_def)
  then have "cat fs' (map (\<lambda>j. build_part_name base (int j)) [0..<n])
      = Inr (concat (map f (map (\<lambda>j. build_part_name base (int j)) [0..<n])))"
    by (rule cat_files)
  also have "map f (map (\<lambda>j. build_part_name base (int j)) [0..<n])
      = map (\<lambda>j. take c (drop (j * c) xs)) [0..<n]"
    using r(2) by (simp add: f_def contents_def)
  also have "concat (map (\<lambda>j. take c (drop (j * c) xs)) [0..<n]) = take (n * c) xs"
    by (rule concat_chunks)
  also have "take (n * c) xs = xs"
    using total_parts_bounds(1)[OF c, folded n_def] by simp
  finally have "cat fs' (map (\<lambda>j. build_part_name base (int j)) [0..<n]) = Inr xs" .
  then show ?thesis using r(1,3) by (auto simp: cs)
qed

theorem split_then_concat_witness:
  "fst (split_file (\<lambda>k. 1)
          [''/'' \<mapsto> Dir 0, ''/d'' \<mapsto> Dir 0, ''/d/game.nsp'' \<mapsto> File [1, 2, 3, 4, 5]]
          ''/d/game.nsp'' None 2 False False)
     = Inr [''/d/game.00.nsp'', ''/d/game.01.nsp'', ''/d/game.02.nsp'']
   \<and> cat (snd (split_file (\<lambda>k. 1)
          [''/'' \<mapsto> Dir 0, ''/d'' \<mapsto> Dir 0, ''/d/game.nsp'' \<mapsto> File [1, 2, 3, 4, 5]]
          ''/d/game.nsp'' None 2 False False))
        [''/d/game.00.nsp'', ''/d/game.01.nsp'', ''/d/game.02.nsp'']
     = Inr [1, 2, 3, 4, 5]"
proof -
  define fs :: filesystem
    where "fs = [''/'' \<mapsto> Dir 0, ''/d'' \<mapsto> Dir 0, ''/d/game.nsp'' \<mapsto> File [1, 2, 3, 4, 5]]"
  have h1: "fs ''/d/game.nsp'' = Some (File [1, 2, 3, 4, 5])" by (simp add: fs_def)
  have h2: "(0::int) < 2" by simp
  have h3: "(2::int) < int (length [1, 2, 3, 4, 5 :: byte])" by simp
  have h4: "fst (makedirs fs (case None of None \<Rightarrow> dirname ''/d/game.nsp'' | Some d \<Rightarrow> d)) = Inr ()"
    unfolding fs_def by code_simp
  have h5: "list_all
          (\<lambda>j. case fs (build_part_name
                          (join (case None of None \<Rightarrow> dirname ''/d/game.nsp'' | Some d \<Rightarrow> d)
                             (basename ''/d/game.nsp'')) (int j)) of
                  None \<Rightarrow> True | Some (File ys) \<Rightarrow> False | Some (Dir k) \<Rightarrow> False)
          [0..<nat ((int (length [1, 2, 3, 4, 5 :: byte]) + 2 - 1) div 2)]"
    unfolding fs_def by code_simp
  have h6: "\<forall>k. 0 < (\<lambda>k. 1 :: nat) k" by simp
  have p: "fst (split_file (\<lambda>k. 1) fs ''/d/game.nsp'' None 2 False False)
      = Inr [''/d/game.00.nsp'', ''/d/game.01.nsp'', ''/d/game.02.nsp'']"
    unfolding fs_def by code_simp
  obtain parts fs' where r:
    "split_file (\<lambda>k. 1) fs ''/d/game.nsp'' None 2 False False = (Inr parts, fs')"
    "cat fs' parts = Inr [1, 2, 3, 4, 5]"
    using split_then_concat[OF h1 h2 h3 h4 h5 h6] by blast
  have "parts = [''/d/game.00.nsp'', ''/d/game.01.nsp'', ''/d/game.02.nsp'']"
    using p r(1) by simp
  then have "cat (snd (split_file (\<lambda>k. 1) fs ''/d/game.nsp'' None 2 False False))
      [''/d/game.00.nsp'', ''/d/game.01.nsp'', ''/d/game.02.nsp''] = Inr [1, 2, 3, 4, 5]"
    using r by simp
  with p show ?thesis unfolding fs_def by simp
qed

text \<open>
  C2: under the same conditions, \<open>split_file\<close> produces \<open>N = ceil(S / C)\<close> parts; every
  part but the last is a file of exactly \<open>C\<close> bytes, and the last is a file of
  \<open>S - C * (N - 1)\<close> bytes, which is more than 0 and at most \<open>C\<close>.
\<close>

theorem split_file_part_sizes:
  assumes "fs file_path = Some (File xs)" "0 < chunk_size" "chunk_size < int (length xs)"
    and "fst (makedirs fs (case output_dir of None \<Rightarrow> dirname file_path | Some d \<Rightarrow> d)) = Inr ()"
    and "list_all
          (\<lambda>j. case fs (build_part_name
                          (join (case output_dir of None \<Rightarrow> dirname file_path | Some d \<Rightarrow> d)
                             (basename file_path)) (int j)) of
                  None \<Rightarrow> True | Some (File ys) \<Rightarrow> overwrite | Some (Dir k) \<Rightarrow> False)
          [0..<nat ((int (length xs) + chunk_size - 1) div chunk_size)]"
    and "\<forall>k. 0 < reads k"
  shows "\<exists>parts fs'.
      split_file reads fs file_path output_dir chunk_size overwrite False = (Inr parts, fs')
      \<and> int (length parts) = \<lceil>real (length xs) / real_of_int chunk_size\<rceil>
      \<and> (\<forall>j. j < length parts \<longrightarrow>
            (\<exists>ys. fs' (parts ! j) = Some (File ys)
               \<and> int (length ys)
                  = (if j < length parts - 1 then chunk_size
                     else int (length xs) - chunk_size * (int (length parts) - 1))))
      \<and> 0 < int (length xs) - chunk_size * (int (length parts) - 1)
      \<and> int (length xs) - chunk_size * (int (length parts) - 1) \<le> chunk_size"
proof -
  define c where "c = nat chunk_size"
  define out where "out = (case output_dir of None \<Rightarrow> dirname file_path | Some d \<Rightarrow> d)"
  define base where "base = join out (basename file_path)"
  define n where "n = nat ((int (length xs) + int c - 1) div int c)"
  have cs: "chunk_size = int c" using assms(2) by (simp add: c_def)
  have c: "0 < c" "c < length xs" using assms(2,3) by (simp_all add: c_def)
  obtain fs' where r:
    "split_file reads fs file_path output_dir (int c) overwrite False
       = (Inr (map (\<lambda>j. build_part_name base (int j)) [0..<n]), fs')"
    "\<forall>j. j < n \<longrightarrow> fs' (build_part_name base (int j)) = Some (File (take c (drop (j * c) xs)))"
    using split_file_run[OF assms(1) c out_def base_def n_def assms(4)[folded out_def]
        assms(5)[folded out_def base_def, unfolded cs, folded n_def] assms(6)]
    by blast
  note tb = total_parts_bounds[OF c, folded n_def]
  define parts where "parts = map (\<lambda>j. build_part_name base (int j)) [0..<n]"
  have len: "length parts = n" by (simp add: parts_def)
  have q0: "0 \<le> (int (length xs) + int c - 1) div int c"
    using c(1) by (intro pos_imp_zdiv_nonneg_iff[THEN iffD2]) simp_all
  have cnt: "int (length parts) = \<lceil>real (length xs) / real_of_int chunk_size\<rceil>"
    using total_parts_ceiling[of "int c" "int (length xs)"] c(1) q0
    by (simp add: len n_def cs)
  have last_lt: "(n - 1) * c < length xs" by (rule tb(2))
  have last_eq: "int (length xs) - int c * (int n - 1) = int (length xs - (n - 1) * c)"
    using last_lt tb(3) by (simp add: of_nat_diff mult.commute)
  have sizes: "\<forall>j. j < length parts \<longrightarrow>
            (\<exists>ys. fs' (parts ! j) = Some (File ys)
               \<and> int (length ys)
                  = (if j < length parts - 1 then int c
                     else int (length xs) - int c * (int (length parts) - 1)))"
  proof (intro allI impI)
    fix j assume j: "j < length parts"
    then have jn: "j < n" by (simp add: len)
    have pj: "fs' (parts ! j) = Some (File (take c (drop (j * c) xs)))"
      using r(2) jn by (simp add: parts_def)
    have "int (length (take c (drop (j * c) xs)))
        = (if j < n - 1 then int c else int (length xs) - int c * (int n - 1))"
    proof (cases "j < n - 1")
      case True
      then have "Suc j * c \<le> (n - 1) * c" by (intro mult_le_mono1) simp
      then have "j * c + c \<le> length xs" using last_lt by simp
      then show ?thesis using True by simp
    next
      case False
      then have jl: "j = n - 1" using jn by simp
      have "length xs - (n - 1) * c \<le> c" using tb(1,3)
        by (metis Suc_pred' add.commute le_diff_conv mult_Suc)
      then show ?thesis using False jl last_eq by simp
    qed
    then show "\<exists>ys. fs' (parts ! j) = Some (File ys)
               \<and> int (length ys)
                  = (if j < length parts - 1 then int c
                     else int (length xs) - int c * (int (length parts) - 1))"
      using pj by (simp add: len)
  qed
  have pos: "0 < int (length xs) - int c * (int (length parts) - 1)"
  proof -
    have "0 < length xs - (n - 1) * c" using last_lt by simp
    then have "0 < int (length xs - (n - 1) * c)" by (simp only: of_nat_0_less_iff)
    then show ?thesis unfolding len last_eq .
  qed
  have le: "int (length xs) - int c * (int (length parts) - 1) \<le> int c"
  proof -
    have "length xs - (n - 1) * c \<le> c" using tb(1,3)
      by (metis Suc_pred' add.commute le_diff_conv mult_Suc)
    then show ?thesis using last_eq by (simp add: len)
  qed
  show ?thesis using r(1) cnt sizes pos le unfolding cs parts_def[symmetric] by blast
qed

theorem split_file_part_sizes_witness:
  "fst (split_file (\<lambda>k. 1)
          [''/'' \<mapsto> Dir 0, ''/d'' \<mapsto> Dir 0, ''/d/game.nsp'' \<mapsto> File [1, 2, 3, 4, 5]]
          ''/d/game.nsp'' None 2 False False)
     = Inr [''/d/game.00.nsp'', ''/d/game.01.nsp'', ''/d/game.02.nsp'']
   \<and> (3::int) = \<lceil>real (length [1, 2, 3, 4, 5 :: byte]) / real_of_int 2\<rceil>
   \<and> (\<exists>ys. snd (split_file (\<lambda>k. 1)
          [''/'' \<mapsto> Dir 0, ''/d'' \<mapsto> Dir 0, ''/d/game.nsp'' \<mapsto> File [1, 2, 3, 4, 5]]
          ''/d/game.nsp'' None 2 False False) ''/d/game.00.nsp'' = Some (File ys)
        \<and> int (length ys) = 2)
   \<and> (\<exists>ys. snd (split_file (\<lambda>k. 1)
          [''/'' \<mapsto> Dir 0, ''/d'' \<mapsto> Dir 0, ''/d/game.nsp'' \<mapsto> File [1, 2, 3, 4, 5]]
          ''/d/game.nsp'' None 2 False False) ''/d/game.02.nsp'' = Some (File ys)
        \<and> int (length ys) = 1)"
proof -
  define fs :: filesystem
    where "fs = [''/'' \<mapsto> Dir 0, ''/d'' \<mapsto> Dir 0, ''/d/game.nsp'' \<mapsto> File [1, 2, 3, 4, 5]]"
  have h1: "fs ''/d/game.nsp'' = Some (File [1, 2, 3, 4, 5])" by (simp add: fs_def)
  have h2: "(0::int) < 2" by simp
  have h3: "(2::int) < int (length [1, 2, 3, 4, 5 :: byte])" by simp
  have h4: "fst (makedirs fs (case None of None \<Rightarrow> dirname ''/d/game.nsp'' | Some d \<Rightarrow> d)) = Inr ()"
    unfolding fs_def by code_simp
  have h5: "list_all
          (\<lambda>j. case fs (build_part_name
                          (join (case None of None \<Rightarrow> dirname ''/d/game.nsp'' | Some d \<Rightarrow> d)
                             (basename ''/d/game.nsp'')) (int j)) of
                  None \<Rightarrow> True | Some (File ys) \<Rightarrow> False | Some (Dir k) \<Rightarrow> False)
          [0..<nat ((int (length [1, 2, 3, 4, 5 :: byte]) + 2 - 1) div 2)]"
    unfolding fs_def by code_simp
  have h6: "\<forall>k. 0 < (\<lambda>k. 1 :: nat) k" by simp
  have p: "fst (split_file (\<lambda>k. 1) fs ''/d/game.nsp'' None 2 False False)
      = Inr [''/d/game.00.nsp'', ''/d/game.01.nsp'', ''/d/game.02.nsp'']"
    unfolding fs_def by code_simp
  obtain parts fs' where r:
    "split_file (\<lambda>k. 1) fs ''/d/game.nsp'' None 2 False False = (Inr parts, fs')"
    "int (length parts) = \<lceil>real (length [1, 2, 3, 4, 5 :: byte]) / real_of_int 2\<rceil>"
    "\<forall>j. j < length parts \<longrightarrow>
        (\<exists>ys. fs' (parts ! j) = Some (File ys)
           \<and> int (length ys)
              = (if j < length parts - 1 then 2
                 else int (length [1, 2, 3, 4, 5 :: byte]) - 2 * (int (length parts) - 1)))"
    using split_file_part_sizes[OF h1 h2 h3 h4 h5 h6] by blast
  have ps: "parts = [''/d/game.00.nsp'', ''/d/game.01.nsp'', ''/d/game.02.nsp'']"
    using p r(1) by simp
  have f: "snd (split_file (\<lambda>k. 1) fs ''/d/game.nsp'' None 2 False False) = fs'"
    using r(1) by simp
  have n: "(3::int) = \<lceil>real (length [1, 2, 3, 4, 5 :: byte]) / real_of_int 2\<rceil>"
    using r(2) by (simp add: ps)
  have a: "\<exists>ys. fs' ''/d/game.00.nsp'' = Some (File ys) \<and> int (length ys) = 2"
    using r(3)[rule_format, of 0] by (simp add: ps)
  have b: "\<exists>ys. fs' ''/d/game.02.nsp'' = Some (File ys) \<and> int (length ys) = 1"
    using r(3)[rule_format, of 2] by (simp add: ps)
  show ?thesis using p n a b unfolding f[symmetric] fs_def by blast
qed

section \<open>Existing parts without overwrite\<close>

lemma split_loop_prefix:
  assumes c: "0 < c" and rd: "\<forall>k. 0 < reads k"
    and inj: "\<And>j j'. build_part_name base (int j) = build_part_name base (int j') \<Longrightarrow> j = j'"
  shows "fs sp = Some (File xs) \<Longrightarrow> rpath src = sp \<Longrightarrow> rpos src = min (i * c) (length xs)
    \<Longrightarrow> (\<And>j. i \<le> j \<Longrightarrow> j < n \<Longrightarrow>
          build_part_name base (int j) \<noteq> sp
          \<and> (ow \<or> fs (build_part_name base (int j)) = None)
          \<and> (\<forall>k. fs (build_part_name base (int j)) \<noteq> Some (Dir k)))
    \<Longrightarrow> \<exists>fs' src'.
          split_loop reads base (int c) (int (length xs)) ow ([i..<n] @ later) fs src parts
            = split_loop reads base (int c) (int (length xs)) ow later fs' src'
                (parts @ map (\<lambda>j. build_part_name base (int j)) [i..<n])
          \<and> (\<forall>j. i \<le> j \<and> j < n
               \<longrightarrow> fs' (build_part_name base (int j)) = Some (File (take c (drop (j * c) xs))))
          \<and> (\<forall>p. (\<forall>j. i \<le> j \<and> j < n \<longrightarrow> p \<noteq> build_part_name base (int j)) \<longrightarrow> fs' p = fs p)"
proof (induction "n - i" arbitrary: i fs src parts)
  case 0
  then have le: "n \<le> i" by simp
  then have e: "[i..<n] = []" by simp
  have "split_loop reads base (int c) (int (length xs)) ow ([i..<n] @ later) fs src parts
      = split_loop reads base (int c) (int (length xs)) ow later fs src
          (parts @ map (\<lambda>j. build_part_name base (int j)) [i..<n])"
    unfolding e by simp
  moreover have "\<forall>j. i \<le> j \<and> j < n
      \<longrightarrow> fs (build_part_name base (int j)) = Some (File (take c (drop (j * c) xs)))"
    using le by auto
  ultimately show ?case by blast
next
  case (Suc m)
  then have lt: "i < n" by simp
  have up: "[i..<n] = i # [Suc i..<n]" using lt by (simp add: upt_conv_Cons)
  define pp where "pp = build_part_name base (int i)"
  define remaining where "remaining = min (int c) (int (length xs) - int (rpos src))"
  note sl = chunk_slice[OF c Suc.prems(3), folded remaining_def]
  have ppf: "pp \<noteq> sp" "ow \<or> fs pp = None" "\<forall>k. fs pp \<noteq> Some (Dir k)"
    using Suc.prems(4)[OF order_refl lt] by (simp_all add: pp_def)
  have cond: "(exists fs pp \<and> \<not> ow) = False" using ppf(2) by (auto simp: exists_def)
  define fs1 where "fs1 = fs(pp \<mapsto> File [])"
  have o: "open_wb fs pp = Inr fs1"
    using ppf(3) by (auto simp: open_wb_def fs1_def split: option.splits node.splits)
  have f1: "fs1 sp = Some (File xs)" using Suc.prems(1) ppf(1) by (simp add: fs1_def)
  have f2: "fs1 pp = Some (File [])" by (simp add: fs1_def)
  have fit: "rpos src + nat (remaining - 0) \<le> length xs" using sl(2) by simp
  obtain k where cl: "copy_loop reads pp remaining fs1 src 0
      = (Inr remaining,
         fs1(pp \<mapsto> File ([] @ take (nat (remaining - 0)) (drop (rpos src) xs))),
         src\<lparr>rpos := rpos src + nat (remaining - 0), rcalls := k\<rparr>)"
    using copy_loop_run[OF f1 Suc.prems(2) ppf(1) f2 order_refl sl(1) fit rd] by blast
  define fs2 where "fs2 = fs(pp \<mapsto> File (take c (drop (i * c) xs)))"
  define src2 where "src2 = src\<lparr>rpos := rpos src + nat remaining, rcalls := k\<rparr>"
  have cl2: "copy_loop reads pp remaining fs1 src 0 = (Inr remaining, fs2, src2)"
    using cl sl(3) by (simp add: fs1_def fs2_def src2_def)
  have step: "split_loop reads base (int c) (int (length xs)) ow ([i..<n] @ later) fs src parts
      = split_loop reads base (int c) (int (length xs)) ow ([Suc i..<n] @ later) fs2 src2 (parts @ [pp])"
    using o cl2 by (simp add: up pp_def[symmetric] remaining_def[symmetric] Let_def cond)
  have "\<exists>fs' src'.
          split_loop reads base (int c) (int (length xs)) ow ([Suc i..<n] @ later) fs2 src2 (parts @ [pp])
            = split_loop reads base (int c) (int (length xs)) ow later fs' src'
                ((parts @ [pp]) @ map (\<lambda>j. build_part_name base (int j)) [Suc i..<n])
          \<and> (\<forall>j. Suc i \<le> j \<and> j < n
               \<longrightarrow> fs' (build_part_name base (int j)) = Some (File (take c (drop (j * c) xs))))
          \<and> (\<forall>p. (\<forall>j. Suc i \<le> j \<and> j < n \<longrightarrow> p \<noteq> build_part_name base (int j)) \<longrightarrow> fs' p = fs2 p)"
  proof (rule Suc.hyps(1))
    show "m = n - Suc i" using Suc.hyps(2) by simp
    show "fs2 sp = Some (File xs)" using Suc.prems(1) ppf(1) by (simp add: fs2_def)
    show "rpath src2 = sp" using Suc.prems(2) by (simp add: src2_def)
    show "rpos src2 = min (Suc i * c) (length xs)" using sl(4) by (simp add: src2_def)
    fix j assume j: "Suc i \<le> j" "j < n"
    then have "build_part_name base (int j) \<noteq> pp" using inj[of j i] by (auto simp: pp_def)
    then have "fs2 (build_part_name base (int j)) = fs (build_part_name base (int j))"
      by (simp add: fs2_def)
    moreover have "i \<le> j" using j(1) by simp
    ultimately show "build_part_name base (int j) \<noteq> sp
          \<and> (ow \<or> fs2 (build_part_name base (int j)) = None)
          \<and> (\<forall>k. fs2 (build_part_name base (int j)) \<noteq> Some (Dir k))"
      using Suc.prems(4)[of j] j(2) by simp
  qed
  then obtain fs' src' where r:
    "split_loop reads base (int c) (int (length xs)) ow ([Suc i..<n] @ later) fs2 src2 (parts @ [pp])
       = split_loop reads base (int c) (int (length xs)) ow later fs' src'
           ((parts @ [pp]) @ map (\<lambda>j. build_part_name base (int j)) [Suc i..<n])"
    "\<And>j. Suc i \<le> j \<Longrightarrow> j < n
       \<Longrightarrow> fs' (build_part_name base (int j)) = Some (File (take c (drop (j * c) xs)))"
    "\<And>p. (\<And>j. Suc i \<le> j \<Longrightarrow> j < n \<Longrightarrow> p \<noteq> build_part_name base (int j)) \<Longrightarrow> fs' p = fs2 p"
    by blast
  have res: "split_loop reads base (int c) (int (length xs)) ow ([i..<n] @ later) fs src parts
      = split_loop reads base (int c) (int (length xs)) ow later fs' src'
          (parts @ map (\<lambda>j. build_part_name base (int j)) [i..<n])"
    using step r(1) by (simp add: up pp_def)
  have ppi: "fs' pp = Some (File (take c (drop (i * c) xs)))"
  proof -
    have "fs' pp = fs2 pp"
    proof (rule r(3))
      fix j assume "Suc i \<le> j" "j < n"
      then show "pp \<noteq> build_part_name base (int j)" using inj[of i j] by (auto simp: pp_def)
    qed
    then show ?thesis by (simp add: fs2_def)
  qed
  have files: "\<forall>j. i \<le> j \<and> j < n
      \<longrightarrow> fs' (build_part_name base (int j)) = Some (File (take c (drop (j * c) xs)))"
  proof (intro allI impI)
    fix j assume j: "i \<le> j \<and> j < n"
    show "fs' (build_part_name base (int j)) = Some (File (take c (drop (j * c) xs)))"
    proof (cases "j = i")
      case True
      then show ?thesis using ppi by (simp add: pp_def)
    next
      case False
      then show ?thesis using j r(2)[of j] by simp
    qed
  qed
  have frame: "\<forall>p. (\<forall>j. i \<le> j \<and> j < n \<longrightarrow> p \<noteq> build_part_name base (int j)) \<longrightarrow> fs' p = fs p"
  proof (intro allI impI)
    fix p assume p: "\<forall>j. i \<le> j \<and> j < n \<longrightarrow> p \<noteq> build_part_name base (int j)"
    then have "p \<noteq> pp" using lt by (auto simp: pp_def)
    moreover have "fs' p = fs2 p" using p by (intro r(3)) auto
    ultimately show "fs' p = fs p" by (simp add: fs2_def)
  qed
  show ?case using res files frame by blast
qed

lemma split_file_first_conflict:
  assumes f: "fs file_path = Some (File xs)" and c: "0 < c" "c < length xs"
    and out: "out = (case output_dir of None \<Rightarrow> dirname file_path | Some d \<Rightarrow> d)"
    and base: "base = join out (basename file_path)"
    and n: "n = nat ((int (length xs) + int c - 1) div int c)"
    and mk: "fst (makedirs fs out) = Inr ()"
    and rd: "\<forall>k. 0 < reads k"
    and j: "j < n" "fs (build_part_name base (int j)) \<noteq> None"
    and free: "\<forall>i. i < j \<longrightarrow> fs (build_part_name base (int i)) = None"
  shows "\<exists>fs'. split_file reads fs file_path output_dir (int c) False False
            = (Inl (SplitError (''Refusing to overwrite existing part: ''
                  @ build_part_name base (int j) @ ''. Use --overwrite to replace.'')), fs')
          \<and> (\<forall>i. i < j
               \<longrightarrow> fs' (build_part_name base (int i)) = Some (File (take c (drop (i * c) xs))))"
proof -
  have gs: "getsize fs file_path = Inr (int (length xs))" using f by (simp add: getsize_def)
  have nle: "\<not> int (length xs) \<le> int c" using c(2) by simp
  obtain fs1 where mk1: "makedirs fs out = (Inr (), fs1)"
    using mk by (cases "makedirs fs out") auto
  note u = split_file_unfold[OF gs nle mk1[unfolded out], folded out base]
  have tp: "total_parts (int (length xs)) (int c) = Inr (int n)"
  proof -
    have "0 \<le> (int (length xs) + int c - 1) div int c"
      using c(1) by (intro pos_imp_zdiv_nonneg_iff[THEN iffD2]) simp_all
    then show ?thesis using c(1) by (simp add: total_parts_def n)
  qed
  have f1: "fs1 file_path = Some (File xs)" using makedirs_frame[OF mk1, of file_path] f by auto
  have orb: "open_rb fs1 file_path = Inr \<lparr>rpath = file_path, rpos = 0, rcalls = 0\<rparr>"
    using f1 by (simp add: open_rb_def)
  have same: "\<And>i. fs1 (build_part_name base (int i)) = fs (build_part_name base (int i))"
  proof -
    fix i
    note pf = part_path_facts[OF base, of "int i"]
    show "fs1 (build_part_name base (int i)) = fs (build_part_name base (int i))"
      using makedirs_frame[OF mk1, of "build_part_name base (int i)"] pf(2) by auto
  qed
  have parts: "\<And>i. 0 \<le> i \<Longrightarrow> i < j \<Longrightarrow>
          build_part_name base (int i) \<noteq> file_path
          \<and> (False \<or> fs1 (build_part_name base (int i)) = None)
          \<and> (\<forall>k. fs1 (build_part_name base (int i)) \<noteq> Some (Dir k))"
    using part_path_facts(1)[OF base] free by (simp add: same)
  have idx: "[0..<n] = [0..<j] @ (j # [Suc j..<n])"
    using j(1) by (metis le0 less_imp_le_nat upt_add_eq_append upt_conv_Cons le_add_diff_inverse)
  have "\<exists>fs' src'.
          split_loop reads base (int c) (int (length xs)) False ([0..<j] @ (j # [Suc j..<n])) fs1
              \<lparr>rpath = file_path, rpos = 0, rcalls = 0\<rparr> []
            = split_loop reads base (int c) (int (length xs)) False (j # [Suc j..<n]) fs' src'
                ([] @ map (\<lambda>j. build_part_name base (int j)) [0..<j])
          \<and> (\<forall>i. 0 \<le> i \<and> i < j
               \<longrightarrow> fs' (build_part_name base (int i)) = Some (File (take c (drop (i * c) xs))))
          \<and> (\<forall>p. (\<forall>i. 0 \<le> i \<and> i < j \<longrightarrow> p \<noteq> build_part_name base (int i)) \<longrightarrow> fs' p = fs1 p)"
    by (rule split_loop_prefix[OF c(1) rd build_part_name_inj f1 _ _ parts]) simp_all
  then obtain fs' src' where r:
    "split_loop reads base (int c) (int (length xs)) False [0..<n] fs1
        \<lparr>rpath = file_path, rpos = 0, rcalls = 0\<rparr> []
      = split_loop reads base (int c) (int (length xs)) False (j # [Suc j..<n]) fs' src'
          (map (\<lambda>j. build_part_name base (int j)) [0..<j])"
    "\<forall>i. i < j \<longrightarrow> fs' (build_part_name base (int i)) = Some (File (take c (drop (i * c) xs)))"
    "\<forall>p. (\<forall>i. i < j \<longrightarrow> p \<noteq> build_part_name base (int i)) \<longrightarrow> fs' p = fs1 p"
    unfolding idx by auto
  have "\<forall>i. i < j \<longrightarrow> build_part_name base (int j) \<noteq> build_part_name base (int i)"
    using build_part_name_inj[of base j] by auto
  then have "fs' (build_part_name base (int j)) = fs1 (build_part_name base (int j))"
    using r(3) by blast
  then have ex: "exists fs' (build_part_name base (int j))"
    using j(2) by (simp add: exists_def same)
  have "split_loop reads base (int c) (int (length xs)) False (j # [Suc j..<n]) fs' src'
          (map (\<lambda>j. build_part_name base (int j)) [0..<j])
      = (Inl (SplitError (''Refusing to overwrite existing part: ''
                  @ build_part_name base (int j) @ ''. Use --overwrite to replace.'')), fs')"
    using ex by (simp add: Let_def)
  then have "split_file reads fs file_path output_dir (int c) False False
      = (Inl (SplitError (''Refusing to overwrite existing part: ''
                  @ build_part_name base (int j) @ ''. Use --overwrite to replace.'')), fs')"
    using tp orb r(1) by (simp add: u)
  then show ?thesis using r(2) by blast
qed

text \<open>
  C4, as the program has it, for a real run of \<open>split_file\<close> without overwrite. No path
  that existed before the run is changed. If one of the intended part paths exists
  before the run, the run ends with an error and returns no list of parts. The existence
  test is made for each part in turn, just before that part is opened: for a regular
  source larger than a positive chunk size, an output directory that exists or can be
  created and reads that deliver at least one byte each, the error is the refusal to
  overwrite the first existing part, and by then every part with a smaller index, none
  of which existed, has been created and holds its full chunk.
\<close>

theorem no_overwrite_first_conflict:
  fixes chunk_size :: int and output_dir :: "path option" and file_path :: path
    and reads :: "nat \<Rightarrow> nat" and fs :: filesystem and xs :: "byte list"
  defines "out \<equiv> (case output_dir of None \<Rightarrow> dirname file_path | Some d \<Rightarrow> d)"
  defines "part \<equiv> (\<lambda>i. build_part_name (join out (basename file_path)) (int i))"
  defines "run \<equiv> split_file reads fs file_path output_dir chunk_size False False"
  defines "N \<equiv> nat ((int (length xs) + chunk_size - 1) div chunk_size)"
  shows "(fs p \<noteq> None \<longrightarrow> snd run p = fs p)
    \<and> (fs file_path = Some (File xs) \<and> chunk_size < int (length xs)
        \<and> j < N \<and> fs (part j) \<noteq> None
       \<longrightarrow> (\<exists>e. fst run = Inl e))
    \<and> (fs file_path = Some (File xs) \<and> 0 < chunk_size \<and> chunk_size < int (length xs)
        \<and> fst (makedirs fs out) = Inr () \<and> (\<forall>k. 0 < reads k)
        \<and> j < N \<and> fs (part j) \<noteq> None \<and> (\<forall>i. i < j \<longrightarrow> fs (part i) = None)
       \<longrightarrow> fst run = Inl (SplitError (''Refusing to overwrite existing part: '' @ part j
                          @ ''. Use --overwrite to replace.''))
           \<and> (\<forall>i. i < j \<longrightarrow>
                 snd run (part i)
                   = Some (File (take (nat chunk_size) (drop (i * nat chunk_size) xs)))))"
proof -
  have 1: "fs p \<noteq> None \<longrightarrow> snd run p = fs p"
    unfolding run_def using split_file_keeps[of fs p reads file_path output_dir chunk_size] by blast
  have 2: "fs file_path = Some (File xs) \<and> chunk_size < int (length xs)
        \<and> j < N \<and> fs (part j) \<noteq> None
       \<longrightarrow> (\<exists>e. fst run = Inl e)"
    unfolding run_def N_def part_def out_def
    using split_file_conflict[of fs file_path xs chunk_size j output_dir reads] by blast
  have 3: "fs file_path = Some (File xs) \<and> 0 < chunk_size \<and> chunk_size < int (length xs)
        \<and> fst (makedirs fs out) = Inr () \<and> (\<forall>k. 0 < reads k)
        \<and> j < N \<and> fs (part j) \<noteq> None \<and> (\<forall>i. i < j \<longrightarrow> fs (part i) = None)
       \<longrightarrow> fst run = Inl (SplitError (''Refusing to overwrite existing part: '' @ part j
                          @ ''. Use --overwrite to replace.''))
           \<and> (\<forall>i. i < j \<longrightarrow>
                 snd run (part i)
                   = Some (File (take (nat chunk_size) (drop (i * nat chunk_size) xs))))"
  proof (intro impI, elim conjE)
    assume a: "fs file_path = Some (File xs)" "0 < chunk_size" "chunk_size < int (length xs)"
      "fst (makedirs fs out) = Inr ()" "\<forall>k. 0 < reads k" "j < N" "fs (part j) \<noteq> None"
      "\<forall>i. i < j \<longrightarrow> fs (part i) = None"
    define c where "c = nat chunk_size"
    have cs: "chunk_size = int c" using a(2) by (simp add: c_def)
    have c: "0 < c" "c < length xs" using a(2,3) by (simp_all add: c_def)
    have n: "N = nat ((int (length xs) + int c - 1) div int c)" by (simp add: N_def cs)
    obtain fs' where r:
      "split_file reads fs file_path output_dir (int c) False False
         = (Inl (SplitError (''Refusing to overwrite existing part: ''
                  @ build_part_name (join out (basename file_path)) (int j)
                  @ ''. Use --overwrite to replace.'')), fs')"
      "\<forall>i. i < j \<longrightarrow> fs' (build_part_name (join out (basename file_path)) (int i))
          = Some (File (take c (drop (i * c) xs)))"
      using split_file_first_conflict[OF a(1) c out_def[THEN meta_eq_to_obj_eq] refl n a(4,5,6)
          a(7)[unfolded part_def] a(8)[unfolded part_def]]
      by blast
    show "fst run = Inl (SplitError (''Refusing to overwrite existing part: '' @ part j
                          @ ''. Use --overwrite to replace.''))
           \<and> (\<forall>i. i < j \<longrightarrow>
                 snd run (part i)
                   = Some (File (take (nat chunk_size) (drop (i * nat chunk_size) xs))))"
      using r by (simp add: run_def part_def cs)
  qed
  show ?thesis using 1 2 3 by (intro conjI)
qed

theorem no_overwrite_first_conflict_witness:
  "fst (split_file (\<lambda>k. 2)
          [''/'' \<mapsto> Dir 0, ''/d'' \<mapsto> Dir 0, ''/d/game.nsp'' \<mapsto> File [1, 2, 3],
           ''/d/game.01.nsp'' \<mapsto> File [9]]
          ''/d/game.nsp'' None 2 False False)
     = Inl (SplitError
         ''Refusing to overwrite existing part: /d/game.01.nsp. Use --overwrite to replace.'')
   \<and> snd (split_file (\<lambda>k. 2)
          [''/'' \<mapsto> Dir 0, ''/d'' \<mapsto> Dir 0, ''/d/game.nsp'' \<mapsto> File [1, 2, 3],
           ''/d/game.01.nsp'' \<mapsto> File [9]]
          ''/d/game.nsp'' None 2 False False) ''/d/game.00.nsp'' = Some (File [1, 2])
   \<and> snd (split_file (\<lambda>k. 2)
          [''/'' \<mapsto> Dir 0, ''/d'' \<mapsto> Dir 0, ''/d/game.nsp'' \<mapsto> File [1, 2, 3],
           ''/d/game.01.nsp'' \<mapsto> File [9]]
          ''/d/game.nsp'' None 2 False False) ''/d/game.01.nsp'' = Some (File [9])"
proof -
  define fs :: filesystem where "fs = [''/'' \<mapsto> Dir 0, ''/d'' \<mapsto> Dir 0, ''/d/game.nsp'' \<mapsto> File [1, 2, 3],
           ''/d/game.01.nsp'' \<mapsto> File [9]]"
  define part where "part = (\<lambda>i. build_part_name
      (join (case None of None \<Rightarrow> dirname ''/d/game.nsp'' | Some d \<Rightarrow> d) (basename ''/d/game.nsp''))
      (int i))"
  have p: "part 0 = ''/d/game.00.nsp''" "part 1 = ''/d/game.01.nsp''"
    unfolding part_def by code_simp+
  have h0: "fs ''/d/game.01.nsp'' \<noteq> None" by (simp add: fs_def)
  have h1: "fs ''/d/game.nsp'' = Some (File [1, 2, 3])" by (simp add: fs_def)
  have h2: "(0::int) < 2" "(2::int) < int (length [1, 2, 3 :: byte])" by simp_all
  have h3: "fst (makedirs fs (case None of None \<Rightarrow> dirname ''/d/game.nsp'' | Some d \<Rightarrow> d)) = Inr ()"
    unfolding fs_def by code_simp
  have h4: "\<forall>k. 0 < (\<lambda>k. 2 :: nat) k" by simp
  have h5: "1 < nat ((int (length [1, 2, 3 :: byte]) + 2 - 1) div 2)" by simp
  have h6: "fs (part 1) \<noteq> None" unfolding p by (simp add: fs_def)
  have h7: "\<forall>i. i < (1::nat) \<longrightarrow> fs (part i) = None"
  proof (intro allI impI)
    fix i :: nat assume "i < 1"
    then have "i = 0" by simp
    then show "fs (part i) = None" using p(1) by (simp add: fs_def)
  qed
  note t = no_overwrite_first_conflict[of fs "''/d/game.01.nsp''" "\<lambda>k. 2" "''/d/game.nsp''" None 2
      "[1, 2, 3]" 1]
  have a: "snd (split_file (\<lambda>k. 2) fs ''/d/game.nsp'' None 2 False False) ''/d/game.01.nsp''
      = fs ''/d/game.01.nsp''"
    by (rule t[THEN conjunct1, THEN mp]) (rule h0)
  have b: "fst (split_file (\<lambda>k. 2) fs ''/d/game.nsp'' None 2 False False)
        = Inl (SplitError (''Refusing to overwrite existing part: '' @ part 1
                          @ ''. Use --overwrite to replace.''))
      \<and> (\<forall>i. i < 1 \<longrightarrow>
            snd (split_file (\<lambda>k. 2) fs ''/d/game.nsp'' None 2 False False) (part i)
               = Some (File (take (nat 2) (drop (i * nat 2) [1, 2, 3]))))"
    unfolding part_def
    by (rule t[THEN conjunct2, THEN conjunct2, THEN mp])
      (intro conjI h1 h2 h3 h4 h5 h6[unfolded part_def] h7[unfolded part_def])
  then have "snd (split_file (\<lambda>k. 2) fs ''/d/game.nsp'' None 2 False False) (part 0)
      = Some (File (take (nat 2) (drop (0 * nat 2) [1, 2, 3])))"
    by blast
  then have c: "snd (split_file (\<lambda>k. 2) fs ''/d/game.nsp'' None 2 False False) ''/d/game.00.nsp''
      = Some (File [1, 2])"
    unfolding p by simp
  have "fs ''/d/game.01.nsp'' = Some (File [9])" by (simp add: fs_def)
  with a b c show ?thesis unfolding p fs_def by simp
qed

text \<open>
  C4 as the specification states it fails: with the second part present and the first
  absent, the run ends with the refusal for the second part after it has created the
  first part and written its two bytes.
\<close>

theorem no_overwrite_writes_earlier_parts:
  "fst (split_file (\<lambda>k. 2)
          [''/'' \<mapsto> Dir 0, ''/d'' \<mapsto> Dir 0, ''/d/game.nsp'' \<mapsto> File [1, 2, 3],
           ''/d/game.01.nsp'' \<mapsto> File [9]]
          ''/d/game.nsp'' None 2 False False)
     = Inl (SplitError
         ''Refusing to overwrite existing part: /d/game.01.nsp. Use --overwrite to replace.'')
   \<and> [''/'' \<mapsto> Dir 0, ''/d'' \<mapsto> Dir 0, ''/d/game.nsp'' \<mapsto> File [1, 2, 3],
           ''/d/game.01.nsp'' \<mapsto> File [9 :: byte]] ''/d/game.00.nsp'' = None
   \<and> snd (split_file (\<lambda>k. 2)
          [''/'' \<mapsto> Dir 0, ''/d'' \<mapsto> Dir 0, ''/d/game.nsp'' \<mapsto> File [1, 2, 3],
           ''/d/game.01.nsp'' \<mapsto> File [9]]
          ''/d/game.nsp'' None 2 False False) ''/d/game.00.nsp'' = Some (File [1, 2])"
  by code_simp

end
